theory Spec2Isabelle
  imports Complex_Main "HOL-Library.Char_ord" "HOL-Library.List_Lexorder"
begin

chapter \<open>The embedding\<close>

section \<open>Shared conventions\<close>

text \<open>
  JavaScript strings are modelled as \<open>string\<close> (lists of 8-bit characters), an optional
  field \<open>f?: T\<close> as \<open>T option\<close>, JavaScript numbers that hold scores, confidences,
  delays, attempt limits and the parallelism as \<open>real\<close> (the rounding of IEEE doubles is
  not modelled), counts and indices as \<open>nat\<close> or \<open>int\<close>. A thrown exception is the \<open>Inl\<close> branch of a sum; mutation is explicit
  state passing.
\<close>

datatype error =
    ZodError
  | Error string

text \<open>\<open>Array.prototype.findIndex\<close>: the index of the first element that satisfies the
  predicate, \<open>None\<close> for JavaScript's \<open>-1\<close>.\<close>

fun findIndex :: "('a \<Rightarrow> bool) \<Rightarrow> 'a list \<Rightarrow> nat option" where
  "findIndex P [] = None"
| "findIndex P (x # xs) =
     (if P x then Some 0 else (case findIndex P xs of None \<Rightarrow> None | Some i \<Rightarrow> Some (Suc i)))"

text \<open>\<open>z.string().datetime()\<close>: \<open>YYYY-MM-DDTHH:MM:SS\<close>, an optional fraction, and \<open>Z\<close>.\<close>

definition isDigit :: "char \<Rightarrow> bool" where
  "isDigit c \<longleftrightarrow> (48::nat) \<le> of_char c \<and> of_char c \<le> (57::nat)"

definition isoDatetime :: "string \<Rightarrow> bool" where
  "isoDatetime s \<longleftrightarrow>
     20 \<le> length s
     \<and> list_all isDigit (take 4 s) \<and> s ! 4 = CHR ''-''
     \<and> list_all isDigit (take 2 (drop 5 s)) \<and> s ! 7 = CHR ''-''
     \<and> list_all isDigit (take 2 (drop 8 s)) \<and> s ! 10 = CHR ''T''
     \<and> list_all isDigit (take 2 (drop 11 s)) \<and> s ! 13 = CHR '':''
     \<and> list_all isDigit (take 2 (drop 14 s)) \<and> s ! 16 = CHR '':''
     \<and> list_all isDigit (take 2 (drop 17 s))
     \<and> (drop 19 s = ''Z''
        \<or> (s ! 19 = CHR ''.'' \<and> 22 \<le> length s \<and> list_all isDigit (butlast (drop 20 s))
            \<and> last s = CHR ''Z''))"

section \<open>MemoryStore (packages/core/memory/MemoryStore.ts)\<close>

datatype MemoryCategory = Facts | Constraints | Preferences | Tactics | Pitfalls

record MemoryItem =
  mid :: string
  mtext :: string
  evidenceRefs :: "string list"
  confidence :: real

record MemoryAdds =
  addsFacts :: "MemoryItem list"
  addsConstraints :: "MemoryItem list"
  addsPreferences :: "MemoryItem list"
  addsTactics :: "MemoryItem list"
  addsPitfalls :: "MemoryItem list"

record MemoryDelta =
  deltaRunId :: string
  deltaNodeId :: string
  adds :: MemoryAdds
  deltaCreatedAt :: string

text \<open>The store keeps the five categories in a \<open>Map\<close> held in memory (field \<open>memory\<close>) and
  mirrors each category to the file \<open><category>.jsonl\<close> (field \<open>disk\<close>, \<open>None\<close> while the
  file does not exist; the file's lines are modelled by the items they serialise).\<close>

record MemoryStore =
  memory :: "MemoryCategory \<Rightarrow> MemoryItem list"
  disk :: "MemoryCategory \<Rightarrow> MemoryItem list option"

definition allCategories :: "MemoryCategory list" where
  "allCategories = [Facts, Constraints, Preferences, Tactics, Pitfalls]"

definition addsOf :: "MemoryAdds \<Rightarrow> MemoryCategory \<Rightarrow> MemoryItem list" where
  "addsOf a c = (case c of Facts \<Rightarrow> addsFacts a | Constraints \<Rightarrow> addsConstraints a
     | Preferences \<Rightarrow> addsPreferences a | Tactics \<Rightarrow> addsTactics a | Pitfalls \<Rightarrow> addsPitfalls a)"

text \<open>\<open>MemoryItemSchema\<close>: at least one evidence reference, confidence within \<open>[0, 1]\<close>.\<close>

definition MemoryItemSchema :: "MemoryItem \<Rightarrow> bool" where
  "MemoryItemSchema i \<longleftrightarrow> evidenceRefs i \<noteq> [] \<and> 0 \<le> confidence i \<and> confidence i \<le> 1"

definition MemoryDeltaSchema :: "MemoryDelta \<Rightarrow> bool" where
  "MemoryDeltaSchema d \<longleftrightarrow>
     list_all (\<lambda>c. list_all MemoryItemSchema (addsOf (adds d) c)) allCategories
     \<and> isoDatetime (deltaCreatedAt d)"

text \<open>\<open>addItem\<close>: replace the first item that has the same id, else push; then store the
  list back and save the category's file.\<close>

definition upsert :: "MemoryItem list \<Rightarrow> MemoryItem \<Rightarrow> MemoryItem list" where
  "upsert items item =
     (case findIndex (\<lambda>i. mid i = mid item) items of
        Some existingIndex \<Rightarrow> items[existingIndex := item]
      | None \<Rightarrow> items @ [item])"

definition saveCategory :: "MemoryCategory \<Rightarrow> MemoryStore \<Rightarrow> MemoryStore" where
  "saveCategory c s = s\<lparr>disk := (disk s)(c := Some (memory s c))\<rparr>"

definition addItem :: "MemoryCategory \<Rightarrow> MemoryItem \<Rightarrow> MemoryStore \<Rightarrow> MemoryStore" where
  "addItem c item s = saveCategory c (s\<lparr>memory := (memory s)(c := upsert (memory s c) item)\<rparr>)"

text \<open>\<open>applyMemoryDelta\<close>: validate first (a failed validation throws before anything is
  written), then add every item of every category, in the fixed category order.\<close>

definition applyCategory :: "MemoryDelta \<Rightarrow> MemoryStore \<Rightarrow> MemoryCategory \<Rightarrow> MemoryStore" where
  "applyCategory d s c = foldl (\<lambda>s' item. addItem c item s') s (addsOf (adds d) c)"

definition applyMemoryDelta :: "MemoryDelta \<Rightarrow> MemoryStore \<Rightarrow> error + MemoryStore" where
  "applyMemoryDelta d s =
     (if \<not> MemoryDeltaSchema d then Inl ZodError
      else Inr (foldl (applyCategory d) s allCategories))"

text \<open>A delta that carries the id \<open>m1\<close> twice in one category, and an empty store.\<close>

definition exampleItemA :: MemoryItem where
  "exampleItemA = \<lparr>mid = ''m1'', mtext = ''first'', evidenceRefs = [''e''], confidence = 1/2\<rparr>"

definition exampleItemA' :: MemoryItem where
  "exampleItemA' = \<lparr>mid = ''m1'', mtext = ''second'', evidenceRefs = [''e''], confidence = 1\<rparr>"

definition exampleItemB :: MemoryItem where
  "exampleItemB = \<lparr>mid = ''m2'', mtext = ''other'', evidenceRefs = [''e''], confidence = 1\<rparr>"

definition exampleDelta :: MemoryDelta where
  "exampleDelta = \<lparr>deltaRunId = ''run-0001'', deltaNodeId = ''node'',
     adds = \<lparr>addsFacts = [exampleItemA, exampleItemB, exampleItemA'], addsConstraints = [],
              addsPreferences = [], addsTactics = [exampleItemB], addsPitfalls = []\<rparr>,
     deltaCreatedAt = ''2025-01-01T00:00:00.000Z''\<rparr>"

definition emptyStore :: MemoryStore where
  "emptyStore = \<lparr>memory = (\<lambda>c. []), disk = (\<lambda>c. None)\<rparr>"

subsection \<open>Keyword retrieval\<close>



definition isSpace :: "char \<Rightarrow> bool" where
  "isSpace c \<longleftrightarrow> of_char c = (32::nat) \<or> ((9::nat) \<le> of_char c \<and> of_char c \<le> (13::nat))"


fun startsWith :: "string \<Rightarrow> string \<Rightarrow> bool" where
  "startsWith s [] = True"
| "startsWith [] (t # ts) = False"
| "startsWith (c # cs) (t # ts) = (c = t \<and> startsWith cs ts)"






















section \<open>SessionStore (packages/core/memory/SessionStore.ts)\<close>

text \<open>
  An event's evPayload is opaque JSON, except that the mirror of a compaction carries the
  compacted span and the summary. The fields of an event carry the prefix \<open>ev\<close>.
\<close>

record Span =
  fromEventId :: string
  toEventId :: string

record CompactionSummary =
  summaryGoal :: string
  decisions :: "string list"
  summaryConstraints :: "string list"
  openQuestions :: "string list"
  nextActions :: "string list"
  failuresSoFar :: "string list"

datatype Payload = Json string | SpanAndSummary Span CompactionSummary

record SessionEvent =
  evRunId :: string
  evNodeId :: "string option"
  evStepId :: "string option"
  evType :: string
  evTs :: string
  evRefs :: "string list"
  evPayload :: "Payload option"

record ArtifactIndexEntry =
  entryName :: string
  entryHandle :: string
  entrySummary :: string
  entryTags :: "string list"

record CompactionEvent =
  cRunId :: string
  cNodeId :: "string option"
  span :: Span
  summary :: CompactionSummary
  artifactsIndex :: "ArtifactIndexEntry list"
  cCreatedAt :: string

text \<open>The two append-only files of a run, \<open>events.jsonl\<close> and \<open>compactions.jsonl\<close>, as the
  lists of the records their lines hold; a run without a file reads as the empty list, as
  the \<open>catch\<close> of the readers makes it.\<close>

record SessionStore =
  eventsFile :: "string \<Rightarrow> SessionEvent list"
  compactionsFile :: "string \<Rightarrow> CompactionEvent list"

record EventQuery =
  qRunId :: string
  qNodeId :: "string option"
  qTypes :: "string list option"
  qLimit :: "nat option"
  qBefore :: "string option"
  qAfter :: "string option"

text \<open>\<open>appendEvent\<close>: the timestamp defaults to the clock's \<open>now\<close> (also for an empty
  string, by \<open>||\<close>); the schema's \<open>datetime\<close> check, which belongs to the validation library,
  is the parameter \<open>datetime\<close>. A rejected event throws before anything is written.\<close>

definition appendEvent ::
  "(string \<Rightarrow> bool) \<Rightarrow> string \<Rightarrow> SessionStore \<Rightarrow> SessionEvent \<Rightarrow> error + SessionStore" where
  "appendEvent datetime now s event =
     (let fullEvent = event\<lparr>evTs := (if evTs event = [] then now else evTs event)\<rparr> in
      if \<not> datetime (evTs fullEvent) then Inl ZodError
      else Inr (s\<lparr>eventsFile := (eventsFile s)
                   (evRunId fullEvent := eventsFile s (evRunId fullEvent) @ [fullEvent])\<rparr>))"

definition CompactionEventSchema :: "(string \<Rightarrow> bool) \<Rightarrow> CompactionEvent \<Rightarrow> bool" where
  "CompactionEventSchema datetime c \<longleftrightarrow> nextActions (summary c) \<noteq> [] \<and> datetime (cCreatedAt c)"

text \<open>\<open>appendCompactionEvent\<close>: append to the compactions file, then mirror the compaction as
  a regular event of type \<open>compaction\<close>, stamped by the clock.\<close>

definition compactionMirror :: "CompactionEvent \<Rightarrow> SessionEvent" where
  "compactionMirror c =
     \<lparr>evRunId = cRunId c, evNodeId = cNodeId c, evStepId = None, evType = ''compaction'', evTs = [],
      evRefs = map entryHandle (artifactsIndex c),
      evPayload = Some (SpanAndSummary (span c) (summary c))\<rparr>"

definition appendCompactionEvent ::
  "(string \<Rightarrow> bool) \<Rightarrow> string \<Rightarrow> SessionStore \<Rightarrow> CompactionEvent \<Rightarrow> error + SessionStore" where
  "appendCompactionEvent datetime now s event =
     (if \<not> CompactionEventSchema datetime event then Inl ZodError
      else appendEvent datetime now
             (s\<lparr>compactionsFile := (compactionsFile s)
                   (cRunId event := compactionsFile s (cRunId event) @ [event])\<rparr>)
             (compactionMirror event))"

text \<open>\<open>getEvents\<close>: the run's events, filtered by the fields the query gives (an empty
  string or list and a zero limit count as absent); \<open>before\<close> and \<open>after\<close> compare the
  timestamps as strings.\<close>

definition sliceLast :: "nat \<Rightarrow> 'a list \<Rightarrow> 'a list" where
  "sliceLast n xs = drop (length xs - n) xs"

definition getEvents :: "SessionStore \<Rightarrow> EventQuery \<Rightarrow> SessionEvent list" where
  "getEvents s q =
     (let events = eventsFile s (qRunId q);
          events = (case qNodeId q of
                      None \<Rightarrow> events
                    | Some n \<Rightarrow> if n = [] then events else filter (\<lambda>e. evNodeId e = Some n) events);
          events = (case qTypes q of
                      None \<Rightarrow> events
                    | Some tys \<Rightarrow> if tys = [] then events else filter (\<lambda>e. evType e \<in> set tys) events);
          events = (case qAfter q of
                      None \<Rightarrow> events
                    | Some a \<Rightarrow> if a = [] then events else filter (\<lambda>e. a < evTs e) events);
          events = (case qBefore q of
                      None \<Rightarrow> events
                    | Some b \<Rightarrow> if b = [] then events else filter (\<lambda>e. evTs e < b) events);
          events = (case qLimit q of
                      None \<Rightarrow> events
                    | Some l \<Rightarrow> if l = 0 then events else sliceLast l events)
      in events)"

definition runQuery :: "string \<Rightarrow> EventQuery" where
  "runQuery r = \<lparr>qRunId = r, qNodeId = None, qTypes = None, qLimit = None,
                 qBefore = None, qAfter = None\<rparr>"

definition getCompactionEvents :: "SessionStore \<Rightarrow> string \<Rightarrow> CompactionEvent list" where
  "getCompactionEvents s r = compactionsFile s r"

text \<open>The composite identity that \<open>getUncompactedEvents\<close> recomputes for every event: a
  template literal, so an absent \<open>nodeId\<close> or \<open>stepId\<close> prints as \<open>undefined\<close>.\<close>

definition interpolate :: "string option \<Rightarrow> string" where
  "interpolate v = (case v of None \<Rightarrow> ''undefined'' | Some x \<Rightarrow> x)"

definition compositeId :: "SessionEvent \<Rightarrow> string" where
  "compositeId e = evRunId e @ '':'' @ interpolate (evNodeId e) @ '':'' @ interpolate (evStepId e)
                     @ '':'' @ evType e @ '':'' @ evTs e"

definition getUncompactedEvents :: "SessionStore \<Rightarrow> string \<Rightarrow> SessionEvent list" where
  "getUncompactedEvents s r =
     (let events = getEvents s (runQuery r);
          compactions = getCompactionEvents s r
      in if compactions = [] then events
         else (let latestCompaction = last compactions;
                   compactedToEventId = toEventId (span latestCompaction)
               in case findIndex (\<lambda>e. compositeId e = compactedToEventId) events of
                    None \<Rightarrow> events
                  | Some compactedIndex \<Rightarrow> drop (compactedIndex + 1) events))"

text \<open>A run with three events, compacted up to the second one.\<close>

definition exampleEvent :: "string \<Rightarrow> string \<Rightarrow> SessionEvent" where
  "exampleEvent step t = \<lparr>evRunId = ''run-0001'', evNodeId = Some ''plan'', evStepId = Some step,
     evType = ''observation'', evTs = t, evRefs = [], evPayload = None\<rparr>"

definition exampleCompaction :: CompactionEvent where
  "exampleCompaction = \<lparr>cRunId = ''run-0001'', cNodeId = Some ''plan'',
     span = \<lparr>fromEventId = ''run-0001:plan:s1:observation:t1'',
              toEventId = ''run-0001:plan:s2:observation:t2''\<rparr>,
     summary = \<lparr>summaryGoal = ''g'', decisions = [], summaryConstraints = [], openQuestions = [],
                 nextActions = [''continue''], failuresSoFar = []\<rparr>,
     artifactsIndex = [], cCreatedAt = ''t4''\<rparr>"

definition exampleSession :: SessionStore where
  "exampleSession = \<lparr>eventsFile = (\<lambda>r. [])(''run-0001'' :=
       [exampleEvent ''s1'' ''t1'', exampleEvent ''s2'' ''t2'', exampleEvent ''s3'' ''t3'']),
     compactionsFile = (\<lambda>r. [])\<rparr>"

section \<open>TaskGraph (packages/core/dag/TaskGraph.ts)\<close>

text \<open>
  Of a node, the model keeps the fields that the modelled code reads: \<open>id\<close> (here \<open>nid\<close>),
  \<open>type\<close>, \<open>objective\<close>, \<open>deps\<close>, \<open>scope.artifactNamespace\<close> and the optional retry policy,
  whose fields are themselves optional in the signature of \<open>executeWithRetry\<close>.
\<close>

datatype NodeType = Plan | Research | Execute | Synthesize | Verify | Curate | Commit

record RetryPolicy =
  retriesAllowed :: "bool option"
  maxAttempts :: "real option"
  intervalSeconds :: "real option"
  backoffRate :: "real option"

record NodeSpec =
  nid :: string
  ntype :: NodeType
  objective :: string
  deps :: "string list"
  artifactNamespace :: string
  retryPolicy :: "RetryPolicy option"

record TaskGraph =
  graphRunId :: string
  nodes :: "NodeSpec list"
  globalMaxParallelism :: "real option"

text \<open>\<open>new Map(graph.nodes.map(n => [n.id, n]))\<close>: of two nodes with one id, the later wins.\<close>

definition nodeMapOf :: "NodeSpec list \<Rightarrow> (string \<rightharpoonup> NodeSpec)" where
  "nodeMapOf ns = map_of (rev (map (\<lambda>n. (nid n, n)) ns))"

subsection \<open>Cycle detection\<close>

text \<open>
  The three mutable variables that the closure \<open>dfs\<close> shares. The recursion of \<open>dfs\<close> goes
  through the loop over the dependencies (\<open>dfsDeps\<close>), which threads the state. The first
  argument bounds the depth of the recursion, \<open>None\<close> meaning that the bound was hit;
  \<open>detectCycles\<close> starts with more than the search can use, one unit for every id that
  occurs in the graph.
\<close>

record DfsState =
  visited :: "string set"
  recursionStack :: "string set"
  path :: "string list"

fun dfs :: "nat \<Rightarrow> (string \<rightharpoonup> NodeSpec) \<Rightarrow> string \<Rightarrow> DfsState \<Rightarrow> (bool \<times> DfsState) option"
  and dfsDeps :: "nat \<Rightarrow> (string \<rightharpoonup> NodeSpec) \<Rightarrow> string list \<Rightarrow> DfsState \<Rightarrow> (bool \<times> DfsState) option"
where
  "dfs 0 nodeMap nodeId st = None"
| "dfs (Suc fuel) nodeMap nodeId st =
     (let st1 = st\<lparr>visited := insert nodeId (visited st),
                   recursionStack := insert nodeId (recursionStack st),
                   path := path st @ [nodeId]\<rparr>
      in case (case nodeMap nodeId of
                 None \<Rightarrow> Some (False, st1)
               | Some node \<Rightarrow> dfsDeps fuel nodeMap (deps node) st1) of
           None \<Rightarrow> None
         | Some (True, st2) \<Rightarrow> Some (True, st2)
         | Some (False, st2) \<Rightarrow>
             Some (False, st2\<lparr>path := butlast (path st2),
                              recursionStack := recursionStack st2 - {nodeId}\<rparr>))"
| "dfsDeps fuel nodeMap [] st = Some (False, st)"
| "dfsDeps fuel nodeMap (dep # rest) st =
     (if dep \<notin> visited st then
        (case dfs fuel nodeMap dep st of
           None \<Rightarrow> None
         | Some (True, st') \<Rightarrow> Some (True, st')
         | Some (False, st') \<Rightarrow> dfsDeps fuel nodeMap rest st')
      else if dep \<in> recursionStack st then Some (True, st\<lparr>path := path st @ [dep]\<rparr>)
      else dfsDeps fuel nodeMap rest st)"

text \<open>The loop over \<open>graph.nodes\<close> that starts a search at every node not yet visited.\<close>

fun dfsRoots :: "nat \<Rightarrow> (string \<rightharpoonup> NodeSpec) \<Rightarrow> NodeSpec list \<Rightarrow> DfsState \<Rightarrow> (bool \<times> DfsState) option" where
  "dfsRoots fuel nodeMap [] st = Some (False, st)"
| "dfsRoots fuel nodeMap (node # rest) st =
     (if nid node \<notin> visited st then
        (case dfs fuel nodeMap (nid node) st of
           None \<Rightarrow> None
         | Some (True, st') \<Rightarrow> Some (True, st')
         | Some (False, st') \<Rightarrow> dfsRoots fuel nodeMap rest st')
      else dfsRoots fuel nodeMap rest st)"

record CycleCheck =
  hasCycle :: bool
  cycle :: "string list option"

definition allIds :: "TaskGraph \<Rightarrow> string list" where
  "allIds g = map nid (nodes g) @ concat (map deps (nodes g))"

definition initialDfs :: DfsState where
  "initialDfs = \<lparr>visited = {}, recursionStack = {}, path = []\<rparr>"

definition detectCycles :: "TaskGraph \<Rightarrow> CycleCheck option" where
  "detectCycles g =
     (case dfsRoots (Suc (length (remdups (allIds g)))) (nodeMapOf (nodes g)) (nodes g) initialDfs of
        None \<Rightarrow> None
      | Some (True, st) \<Rightarrow> Some \<lparr>hasCycle = True, cycle = Some (path st)\<rparr>
      | Some (False, st) \<Rightarrow> Some \<lparr>hasCycle = False, cycle = None\<rparr>)"

subsection \<open>Validation\<close>

text \<open>\<open>xs.join(sep)\<close>.\<close>

fun join :: "string \<Rightarrow> string list \<Rightarrow> string" where
  "join sep [] = []"
| "join sep [x] = x"
| "join sep (x # y # ys) = x @ sep @ join sep (y # ys)"

record Validation =
  valid :: bool
  errors :: "string list"

definition danglingErrors :: "TaskGraph \<Rightarrow> string list" where
  "danglingErrors g =
     concat (map (\<lambda>node. concat (map (\<lambda>dep.
         if dep \<notin> set (map nid (nodes g))
         then [''Node '' @ nid node @ '' depends on non-existent node '' @ dep] else [])
       (deps node))) (nodes g))"

definition validate :: "TaskGraph \<Rightarrow> Validation option" where
  "validate g =
     (case detectCycles g of
        None \<Rightarrow> None
      | Some cycleCheck \<Rightarrow>
          (let errors =
                 (if length (remdups (map nid (nodes g))) \<noteq> length (nodes g)
                  then [''Duplicate node IDs detected''] else [])
                 @ danglingErrors g
                 @ (if hasCycle cycleCheck
                    then [''Cycle detected: '' @ join '' -> '' (case cycle cycleCheck of None \<Rightarrow> [] | Some p \<Rightarrow> p)]
                    else [])
           in Some \<lparr>valid = (errors = []), errors = errors\<rparr>))"

subsection \<open>Ready nodes\<close>

definition getReadyNodes :: "TaskGraph \<Rightarrow> string set \<Rightarrow> NodeSpec list" where
  "getReadyNodes g completedNodeIds =
     filter (\<lambda>node. \<not> (nid node \<in> completedNodeIds)
                     \<and> list_all (\<lambda>dep. dep \<in> completedNodeIds) (deps node))
       (nodes g)"

text \<open>The dependency edges of a graph: a node points to each id in its \<open>deps\<close>.\<close>

definition depEdges :: "TaskGraph \<Rightarrow> (string \<times> string) set" where
  "depEdges g = {(nid n, d) | n d. n \<in> set (nodes g) \<and> d \<in> set (deps n)}"

definition hasDependencyCycle :: "TaskGraph \<Rightarrow> bool" where
  "hasDependencyCycle g \<longleftrightarrow> (\<exists>u. (u, u) \<in> (depEdges g)\<^sup>+)"

text \<open>A node constructor for examples: an \<open>execute\<close> node with the given id and dependencies.\<close>

definition mkNode :: "string \<Rightarrow> string list \<Rightarrow> NodeSpec" where
  "mkNode i ds = \<lparr>nid = i, ntype = Execute, objective = ''work'', deps = ds,
                  artifactNamespace = ''runs/run-0001/nodes/'' @ i, retryPolicy = None\<rparr>"

definition mkGraph :: "NodeSpec list \<Rightarrow> TaskGraph" where
  "mkGraph ns = \<lparr>graphRunId = ''run-0001'', nodes = ns, globalMaxParallelism = None\<rparr>"

text \<open>A graph whose cycle \<open>bbb \<rightarrow> ccc \<rightarrow> bbb\<close> is entered from \<open>aaa\<close>.\<close>

definition lassoGraph :: TaskGraph where
  "lassoGraph = mkGraph [mkNode ''aaa'' [''bbb''], mkNode ''bbb'' [''ccc''], mkNode ''ccc'' [''bbb'']]"

subsection \<open>Notions used to state the properties of the search\<close>

text \<open>The edges that the search follows (those of the node map), and the invariant of the
  search: the recursion stack holds visited ids only, and no id that has been visited and
  has left the stack lies on a cycle.\<close>

definition mapEdges :: "(string \<rightharpoonup> NodeSpec) \<Rightarrow> (string \<times> string) set" where
  "mapEdges nodeMap = {(u, d). \<exists>node. nodeMap u = Some node \<and> d \<in> set (deps node)}"

definition dfsInv :: "(string \<rightharpoonup> NodeSpec) \<Rightarrow> DfsState \<Rightarrow> bool" where
  "dfsInv nodeMap st \<longleftrightarrow>
     recursionStack st \<subseteq> visited st
     \<and> (\<forall>u \<in> visited st - recursionStack st. (u, u) \<notin> (mapEdges nodeMap)\<^sup>+)"

text \<open>A reported path is a lasso: it follows edges and ends on a node it has already
  passed, so that the part from that node on is a cycle.\<close>

definition lasso :: "(string \<times> string) set \<Rightarrow> string list \<Rightarrow> bool" where
  "lasso E p \<longleftrightarrow>
     successively (\<lambda>a b. (a, b) \<in> E) p
     \<and> (\<exists>lead c loop. p = lead @ c # loop @ [c])"

text \<open>A closed walk: a non-empty path along edges that returns to its first node.\<close>

definition closedWalk :: "(string \<times> string) set \<Rightarrow> string list \<Rightarrow> bool" where
  "closedWalk E p \<longleftrightarrow> p \<noteq> [] \<and> hd p = last p \<and> successively (\<lambda>a b. (a, b) \<in> E) p"

subsection \<open>Iterating the ready set\<close>

text \<open>
  The iteration that drives a graph by \<open>getReadyNodes\<close> alone: ask for the ready nodes,
  mark every returned node completed, and repeat until nothing is returned. The result
  lists the returned nodes round by round. Every round that returns something completes
  at least one more node of the graph, which is why the iteration ends.
\<close>

function iterateReady :: "TaskGraph \<Rightarrow> string set \<Rightarrow> NodeSpec list list" where
  "iterateReady g completedIds =
     (let ready = getReadyNodes g completedIds
      in if ready = [] then []
         else ready # iterateReady g (completedIds \<union> set (map nid ready)))"
  by pat_completeness auto
termination
proof (relation "measure (\<lambda>(g, completedIds). card (nid ` set (nodes g) - completedIds))")
  show "wf (measure (\<lambda>(g, completedIds). card (nid ` set (nodes g) - completedIds)))"
    by simp
next
  fix g :: TaskGraph and completedIds :: "string set" and ready :: "NodeSpec list"
  assume r: "ready = getReadyNodes g completedIds" and ne: "ready \<noteq> []"
  from ne obtain n where n: "n \<in> set ready" by (cases ready) auto
  with r have "n \<in> set (nodes g)" "nid n \<notin> completedIds"
    by (auto simp: getReadyNodes_def)
  then have "nid n \<in> nid ` set (nodes g) - completedIds"
    and "nid n \<notin> nid ` set (nodes g) - (completedIds \<union> set (map nid ready))"
    using n by auto
  then have "nid ` set (nodes g) - (completedIds \<union> set (map nid ready))
               \<subset> nid ` set (nodes g) - completedIds"
    by blast
  then have "card (nid ` set (nodes g) - (completedIds \<union> set (map nid ready)))
               < card (nid ` set (nodes g) - completedIds)"
    by (intro psubset_card_mono) simp_all
  then show "((g, completedIds \<union> set (map nid ready)), (g, completedIds))
               \<in> measure (\<lambda>(g, completedIds). card (nid ` set (nodes g) - completedIds))"
    by simp
qed

text \<open>A diamond: \<open>top\<close> first, then \<open>left\<close> and \<open>right\<close>, then \<open>bottom\<close>.\<close>

definition diamondGraph :: TaskGraph where
  "diamondGraph = mkGraph [mkNode ''bottom'' [''left'', ''right''], mkNode ''left'' [''top''],
                           mkNode ''top'' [], mkNode ''right'' [''top'']]"

section \<open>GraphExecutor (packages/core/dag/GraphExecutor.ts)\<close>

text \<open>
  A node executor is a function supplied from outside; it may depend on anything and
  change anything. It is modelled as a function of the execution context and of a world
  state \<open>'w\<close> that it returns updated, together with its outcome: \<open>Inr\<close> a result when the
  promise fulfils, \<open>Inl\<close> the error message when it rejects. The context carries the node
  and the map of completed results (the run and the graph, which never change, are left
  to the executor itself). \<open>durationMs\<close>, a reading of the clock, is left out of the
  result. The nodes of a batch are started in order; the model runs them one after the
  other, so the interleaving of their executors is not represented. The optional
  notification hooks of the configuration are not modelled.

  Alongside the world, the state keeps a trace of what happened: each invocation of the
  executor, each sleep between attempts (in milliseconds), and each batch that is started
  (the ids that \<open>onBatchStart\<close> would receive).
\<close>

datatype NodeStatus = Pending | Running | Completed | Failed | Skipped

record NodeExecutionResult =
  resNodeId :: string
  status :: NodeStatus
  outputHandles :: "string list"
  resError :: "string option"

record NodeExecutionContext =
  ctxNode :: NodeSpec
  ctxCompleted :: "(string \<times> NodeExecutionResult) list"

datatype Effect = Invoked string | Slept real | BatchStarted "string list"

record 'w ExecState =
  world :: 'w
  effects :: "Effect list"

type_synonym 'w NodeExecutor =
  "NodeExecutionContext \<Rightarrow> 'w \<Rightarrow> (string + NodeExecutionResult) \<times> 'w"

text \<open>\<open>x || d\<close> on an optional number, \<open>!x\<close> on an optional boolean, \<open>s || d\<close> on an optional
  string.\<close>

definition orElse :: "real option \<Rightarrow> real \<Rightarrow> real" where
  "orElse x d = (case x of None \<Rightarrow> d | Some v \<Rightarrow> if v = 0 then d else v)"

definition truthy :: "bool option \<Rightarrow> bool" where
  "truthy b = (case b of None \<Rightarrow> False | Some v \<Rightarrow> v)"

definition orElseStr :: "string option \<Rightarrow> string \<Rightarrow> string" where
  "orElseStr x d = (case x of None \<Rightarrow> d | Some v \<Rightarrow> if v = [] then d else v)"

definition defaultPolicy :: RetryPolicy where
  "defaultPolicy = \<lparr>retriesAllowed = Some True, maxAttempts = Some 3,
                     intervalSeconds = Some 5, backoffRate = Some 2\<rparr>"

text \<open>One call of the executor, recorded in the trace.\<close>

definition invoke ::
  "'w NodeExecutor \<Rightarrow> NodeExecutionContext \<Rightarrow> 'w ExecState
     \<Rightarrow> (string + NodeExecutionResult) \<times> 'w ExecState" where
  "invoke nodeExecutor ctx st =
     (case nodeExecutor ctx (world st) of
        (r, w') \<Rightarrow> (r, \<lparr>world = w', effects = effects st @ [Invoked (nid (ctxNode ctx))]\<rparr>))"

text \<open>The first component of the error that an attempt leaves in \<open>lastError\<close>.\<close>

definition attemptError :: "string + NodeExecutionResult \<Rightarrow> string" where
  "attemptError r = (case r of
       Inl message \<Rightarrow> message
     | Inr result \<Rightarrow> orElseStr (resError result) ''Node did not complete successfully'')"

text \<open>The retry loop of \<open>executeWithRetry\<close>, from the state at the loop's head: the attempt
  counter, the current delay and \<open>lastError\<close>. It ends because the counter grows towards
  \<open>maxAttempts\<close>.\<close>

function retryLoop ::
  "'w NodeExecutor \<Rightarrow> NodeExecutionContext \<Rightarrow> real \<Rightarrow> real \<Rightarrow> nat \<Rightarrow> real \<Rightarrow> string option
     \<Rightarrow> 'w ExecState \<Rightarrow> (string + NodeExecutionResult) \<times> 'w ExecState" where
  "retryLoop nodeExecutor ctx maxAtt rate attempt delay lastError st =
     (if real attempt < maxAtt then
        (case invoke nodeExecutor ctx st of
           (r, st1) \<Rightarrow>
             (if (case r of Inr result \<Rightarrow> status result = Completed | Inl _ \<Rightarrow> False)
              then (r, st1)
              else (if real (attempt + 1) < maxAtt
                    then retryLoop nodeExecutor ctx maxAtt rate (attempt + 1) (delay * rate)
                           (Some (attemptError r))
                           (st1\<lparr>effects := effects st1 @ [Slept delay]\<rparr>)
                    else retryLoop nodeExecutor ctx maxAtt rate (attempt + 1) delay
                           (Some (attemptError r)) st1)))
      else (Inl (case lastError of Some e \<Rightarrow> e | None \<Rightarrow> ''Max retries exceeded''), st))"
  by pat_completeness auto
termination
  apply (relation "measure (\<lambda>(nodeExecutor, ctx, maxAtt, rate, attempt, delay, lastError, st).
                     nat \<lceil>maxAtt\<rceil> - attempt)")
    apply simp
  subgoal for nodeExecutor ctx maxAtt attempt st
    using le_of_int_ceiling[of maxAtt] by (simp add: diff_less_mono2) linarith
  subgoal for nodeExecutor ctx maxAtt attempt st
    using le_of_int_ceiling[of maxAtt] by (simp add: diff_less_mono2) linarith
  done

declare retryLoop.simps [simp del]

definition executeWithRetry ::
  "'w NodeExecutor \<Rightarrow> NodeExecutionContext \<Rightarrow> RetryPolicy option \<Rightarrow> 'w ExecState
     \<Rightarrow> (string + NodeExecutionResult) \<times> 'w ExecState" where
  "executeWithRetry nodeExecutor ctx retryPolicyOpt st =
     (let policy = (case retryPolicyOpt of None \<Rightarrow> defaultPolicy | Some p \<Rightarrow> p) in
      if \<not> truthy (retriesAllowed policy) then invoke nodeExecutor ctx st
      else retryLoop nodeExecutor ctx (orElse (maxAttempts policy) 3)
             (orElse (backoffRate policy) 2) 0 (orElse (intervalSeconds policy) 5 * 1000)
             None st)"

text \<open>\<open>executeNode\<close> turns whatever \<open>executeWithRetry\<close> throws into a failed result.\<close>

definition executeNode ::
  "'w NodeExecutor \<Rightarrow> NodeSpec \<Rightarrow> (string \<times> NodeExecutionResult) list \<Rightarrow> 'w ExecState
     \<Rightarrow> NodeExecutionResult \<times> 'w ExecState" where
  "executeNode nodeExecutor node completedNodes st =
     (case executeWithRetry nodeExecutor \<lparr>ctxNode = node, ctxCompleted = completedNodes\<rparr>
             (retryPolicy node) st of
        (Inr result, st') \<Rightarrow> (result, st')
      | (Inl errorMessage, st') \<Rightarrow>
          (\<lparr>resNodeId = nid node, status = Failed, outputHandles = [],
            resError = Some errorMessage\<rparr>, st'))"

text \<open>\<open>executeBatch\<close>: every promise of \<open>executeNode\<close> fulfils, so the all-settled join
  returns the results in the order of the nodes.\<close>

fun executeBatch ::
  "'w NodeExecutor \<Rightarrow> NodeSpec list \<Rightarrow> (string \<times> NodeExecutionResult) list \<Rightarrow> 'w ExecState
     \<Rightarrow> NodeExecutionResult list \<times> 'w ExecState" where
  "executeBatch nodeExecutor [] completedNodes st = ([], st)"
| "executeBatch nodeExecutor (node # rest) completedNodes st =
     (case executeNode nodeExecutor node completedNodes st of
        (result, st1) \<Rightarrow>
          (case executeBatch nodeExecutor rest completedNodes st1 of
             (results, st2) \<Rightarrow> (result # results, st2)))"

subsection \<open>Reading the trace, and the retry schedule in the specification's words\<close>

fun invokedOf :: "Effect list \<Rightarrow> string list" where
  "invokedOf [] = []"
| "invokedOf (Invoked n # es) = n # invokedOf es"
| "invokedOf (e # es) = invokedOf es"

fun sleepsOf :: "Effect list \<Rightarrow> real list" where
  "sleepsOf [] = []"
| "sleepsOf (Slept ms # es) = ms # sleepsOf es"
| "sleepsOf (e # es) = sleepsOf es"

fun batchesOf :: "Effect list \<Rightarrow> string list list" where
  "batchesOf [] = []"
| "batchesOf (BatchStarted ids # es) = ids # batchesOf es"
| "batchesOf (e # es) = batchesOf es"

text \<open>The world after \<open>k\<close> invocations of the executor on one context, and the outcome of
  the invocation that follows them.\<close>

fun worldAfter :: "'w NodeExecutor \<Rightarrow> NodeExecutionContext \<Rightarrow> nat \<Rightarrow> 'w \<Rightarrow> 'w" where
  "worldAfter nodeExecutor ctx 0 w = w"
| "worldAfter nodeExecutor ctx (Suc k) w = worldAfter nodeExecutor ctx k (snd (nodeExecutor ctx w))"

definition outcomeAt ::
  "'w NodeExecutor \<Rightarrow> NodeExecutionContext \<Rightarrow> nat \<Rightarrow> 'w \<Rightarrow> string + NodeExecutionResult" where
  "outcomeAt nodeExecutor ctx k w = fst (nodeExecutor ctx (worldAfter nodeExecutor ctx k w))"

text \<open>What the specification says of a node that never completes: attempts \<open>1, \<dots>, m\<close>, and
  after the \<open>n\<close>-th attempt, unless it is the last, a sleep of
  \<open>intervalSeconds \<times> backoffRate^(n-1)\<close> seconds, here in milliseconds.\<close>

definition specRetryTrace :: "string \<Rightarrow> real \<Rightarrow> real \<Rightarrow> nat \<Rightarrow> Effect list" where
  "specRetryTrace n interval rate m =
     concat (map (\<lambda>k. Invoked n # (if k < m then [Slept (interval * rate ^ (k - 1) * 1000)] else []))
               [1..<Suc m])"

text \<open>An executor that reports \<open>failed\<close> with the error \<open>boom\<close> followed by one \<open>!\<close> per earlier
  invocation (its world counts the invocations), and a node that allows three attempts,
  two seconds apart at first, tripling.\<close>

definition failingExecutor :: "nat NodeExecutor" where
  "failingExecutor ctx w =
     (Inr \<lparr>resNodeId = nid (ctxNode ctx), status = Failed, outputHandles = [],
           resError = Some (''boom'' @ replicate w (CHR ''!''))\<rparr>, Suc w)"

definition retryingNode :: NodeSpec where
  "retryingNode = (mkNode ''flaky'' [])\<lparr>retryPolicy :=
     Some \<lparr>retriesAllowed = Some True, maxAttempts = Some 3, intervalSeconds = Some 2,
           backoffRate = Some 3\<rparr>\<rparr>"

subsection \<open>The execution loop\<close>

text \<open>
  \<open>completedNodes\<close> is a \<open>Map\<close> and \<open>failedNodes\<close> a \<open>Set\<close>; both keep insertion order, which
  shows in the outputs and in the error text, so they are lists here: \<open>mapSet\<close> is
  \<open>Map.set\<close> (an existing key keeps its place) and \<open>setAdd\<close> is \<open>Set.add\<close>.
\<close>

fun mapSet :: "(string \<times> 'v) list \<Rightarrow> string \<Rightarrow> 'v \<Rightarrow> (string \<times> 'v) list" where
  "mapSet [] k v = [(k, v)]"
| "mapSet ((k', v') # kvs) k v = (if k' = k then (k, v) # kvs else (k', v') # mapSet kvs k v)"

definition setAdd :: "string list \<Rightarrow> string \<Rightarrow> string list" where
  "setAdd xs x = (if x \<in> set xs then xs else xs @ [x])"

definition processResult ::
  "(string \<times> NodeExecutionResult) list \<times> string list \<Rightarrow> NodeExecutionResult
     \<Rightarrow> (string \<times> NodeExecutionResult) list \<times> string list" where
  "processResult cf result =
     (if status result = Completed then (mapSet (fst cf) (resNodeId result) result, snd cf)
      else if status result = Failed then (fst cf, setAdd (snd cf) (resNodeId result))
      else cf)"

text \<open>\<open>[...ready].sort((a, b) => a.id.localeCompare(b.id))\<close>: a stable sort by the
  comparator. \<open>localeCompare\<close> belongs to the JavaScript runtime and follows the collation
  of its locale; it is a parameter here. An element is moved behind another only if the
  comparator says it is greater.\<close>

fun insertSorted :: "(string \<Rightarrow> string \<Rightarrow> int) \<Rightarrow> NodeSpec \<Rightarrow> NodeSpec list \<Rightarrow> NodeSpec list" where
  "insertSorted localeCompare a [] = [a]"
| "insertSorted localeCompare a (b # bs) =
     (if localeCompare (nid a) (nid b) \<le> 0 then a # b # bs
      else b # insertSorted localeCompare a bs)"

definition sortNodes :: "(string \<Rightarrow> string \<Rightarrow> int) \<Rightarrow> NodeSpec list \<Rightarrow> NodeSpec list" where
  "sortNodes localeCompare ns = foldr (insertSorted localeCompare) ns []"

text \<open>
  \<open>xs.slice(start, end)\<close>: both arguments are truncated towards zero, a negative one
  counts from the end of the array, and both are clamped to the array.
\<close>

definition toIntegerOrInfinity :: "real \<Rightarrow> int" where
  "toIntegerOrInfinity x = (if 0 \<le> x then \<lfloor>x\<rfloor> else \<lceil>x\<rceil>)"

definition relativeIndex :: "int \<Rightarrow> int \<Rightarrow> int" where
  "relativeIndex len r = (if r < 0 then max (len + r) 0 else min r len)"

definition jsSlice :: "real \<Rightarrow> real \<Rightarrow> 'a list \<Rightarrow> 'a list" where
  "jsSlice start stop xs =
     (let len = int (length xs);
          k = relativeIndex len (toIntegerOrInfinity start);
          final = relativeIndex len (toIntegerOrInfinity stop)
      in take (nat (final - k)) (drop (nat k) xs))"

text \<open>
  The inner loop \<open>for (let i = 0; i < readySorted.length; i += maxPar)\<close> over the batches
  of one ready set: cut the batch \<open>readySorted.slice(i, i + maxPar)\<close>, start it, run it,
  record its results, and stop admitting batches once a node has failed. \<open>maxPar\<close> is any
  number, so \<open>i\<close> need not be whole and, when \<open>maxPar\<close> is negative, need not reach the
  length: the first argument counts the batches that may still be started, and \<open>None\<close>
  means that they ran out.
\<close>

fun runBatches ::
  "nat \<Rightarrow> 'w NodeExecutor \<Rightarrow> real \<Rightarrow> real \<Rightarrow> NodeSpec list
     \<Rightarrow> (string \<times> NodeExecutionResult) list \<Rightarrow> string list \<Rightarrow> 'w ExecState
     \<Rightarrow> ((string \<times> NodeExecutionResult) list \<times> string list \<times> 'w ExecState) option" where
  "runBatches 0 nodeExecutor maxPar i readySorted completedNodes failedNodes st =
     (if i < real (length readySorted) then None else Some (completedNodes, failedNodes, st))"
| "runBatches (Suc fuel) nodeExecutor maxPar i readySorted completedNodes failedNodes st =
     (if i < real (length readySorted) then
        (case executeBatch nodeExecutor (jsSlice i (i + maxPar) readySorted) completedNodes
                (st\<lparr>effects := effects st
                      @ [BatchStarted (map nid (jsSlice i (i + maxPar) readySorted))]\<rparr>) of
           (results, st1) \<Rightarrow>
             (case foldl processResult (completedNodes, failedNodes) results of
                (completedNodes', failedNodes') \<Rightarrow>
                  if failedNodes' \<noteq> [] then Some (completedNodes', failedNodes', st1)
                  else runBatches fuel nodeExecutor maxPar (i + maxPar) readySorted
                         completedNodes' failedNodes' st1))
      else Some (completedNodes, failedNodes, st))"

text \<open>The outer \<open>while\<close> loop. A node whose executor reports a status that is neither
  \<open>completed\<close> nor \<open>failed\<close> is ready again in the next round, so the loop need not end:
  the first argument counts the rounds that are left and the second the batches that a
  round may start; \<open>None\<close> means that one of the two ran out.\<close>

fun executeLoop ::
  "nat \<Rightarrow> nat \<Rightarrow> (string \<Rightarrow> string \<Rightarrow> int) \<Rightarrow> real \<Rightarrow> 'w NodeExecutor \<Rightarrow> TaskGraph
     \<Rightarrow> (string \<times> NodeExecutionResult) list \<Rightarrow> string list \<Rightarrow> 'w ExecState
     \<Rightarrow> ((error + (string \<times> NodeExecutionResult) list \<times> string list) \<times> 'w ExecState) option" where
  "executeLoop 0 batchFuel localeCompare maxPar nodeExecutor g completedNodes failedNodes st = None"
| "executeLoop (Suc fuel) batchFuel localeCompare maxPar nodeExecutor g completedNodes failedNodes st =
     (if length completedNodes + length failedNodes < length (nodes g) then
        (let ready = filter (\<lambda>n. nid n \<notin> set failedNodes)
                       (getReadyNodes g (set (map fst completedNodes)))
         in if ready = [] then
              (if failedNodes \<noteq> [] then Some (Inr (completedNodes, failedNodes), st)
               else Some (Inl (Error ''Deadlock: no ready nodes but graph incomplete''), st))
            else
              (case runBatches batchFuel nodeExecutor maxPar 0 (sortNodes localeCompare ready)
                      completedNodes failedNodes st of
                 None \<Rightarrow> None
               | Some (completedNodes', failedNodes', st') \<Rightarrow>
                   if failedNodes' \<noteq> [] then Some (Inr (completedNodes', failedNodes'), st')
                   else executeLoop fuel batchFuel localeCompare maxPar nodeExecutor g
                          completedNodes' failedNodes' st'))
      else Some (Inr (completedNodes, failedNodes), st))"

datatype RunStatus = RunComplete | RunFailed | RunRunning | RunPending

record RunResult =
  resultRunId :: string
  runStatus :: RunStatus
  outputs :: "(string \<times> string) list"
  runError :: "string option"

text \<open>\<open>maxParallelism\<close> is a JavaScript number in the configuration, which nothing checks,
  and in the graph, where the schema asks for a number that is at least 1, whole or not.
  The constructor takes \<open>config.maxParallelism || 4\<close> and \<open>execute\<close> takes
  \<open>graph.global?.maxParallelism || this.config.maxParallelism\<close>.\<close>

record GraphExecutorConfig =
  cfgMaxParallelism :: "real option"

definition configuredParallelism :: "GraphExecutorConfig \<Rightarrow> real" where
  "configuredParallelism config = orElse (cfgMaxParallelism config) 4"

definition effectiveParallelism :: "GraphExecutorConfig \<Rightarrow> TaskGraph \<Rightarrow> real" where
  "effectiveParallelism config g = orElse (globalMaxParallelism g) (configuredParallelism config)"

definition collectOutputs :: "(string \<times> NodeExecutionResult) list \<Rightarrow> (string \<times> string) list" where
  "collectOutputs completedNodes =
     concat (map (\<lambda>(k, r). map (\<lambda>h. (resNodeId r, h)) (outputHandles r)) completedNodes)"

definition execute ::
  "nat \<Rightarrow> (string \<Rightarrow> string \<Rightarrow> int) \<Rightarrow> GraphExecutorConfig \<Rightarrow> 'w NodeExecutor \<Rightarrow> string
     \<Rightarrow> TaskGraph \<Rightarrow> 'w ExecState \<Rightarrow> ((error + RunResult) \<times> 'w ExecState) option" where
  "execute fuel localeCompare config nodeExecutor runId g st =
     (case validate g of
        None \<Rightarrow> None
      | Some validation \<Rightarrow>
          if \<not> valid validation
          then Some (Inr \<lparr>resultRunId = runId, runStatus = RunFailed, outputs = [],
                          runError = Some (''Invalid graph: '' @ join '', '' (errors validation))\<rparr>,
                     st)
          else (case executeLoop fuel fuel localeCompare (effectiveParallelism config g)
                       nodeExecutor g [] [] st of
                  None \<Rightarrow> None
                | Some (Inl e, st') \<Rightarrow> Some (Inl e, st')
                | Some (Inr (completedNodes, failedNodes), st') \<Rightarrow>
                    Some (Inr \<lparr>resultRunId = runId,
                               runStatus = (if failedNodes \<noteq> [] then RunFailed else RunComplete),
                               outputs = collectOutputs completedNodes,
                               runError = (if failedNodes \<noteq> []
                                           then Some (''Failed nodes: '' @ join '', '' failedNodes)
                                           else None)\<rparr>,
                          st')))"

text \<open>The chain of Scenario A: \<open>c\<close> depends on \<open>b\<close>, which depends on \<open>a\<close>; the retry policies
  are left open. And an executor that completes \<open>a\<close> with one handle and fails every other
  node, counting its invocations in the world.\<close>

definition chainGraph :: "RetryPolicy option \<Rightarrow> RetryPolicy option \<Rightarrow> RetryPolicy option \<Rightarrow> TaskGraph" where
  "chainGraph pa pb pc =
     mkGraph [(mkNode ''a'' [])\<lparr>retryPolicy := pa\<rparr>, (mkNode ''b'' [''a''])\<lparr>retryPolicy := pb\<rparr>,
              (mkNode ''c'' [''b''])\<lparr>retryPolicy := pc\<rparr>]"

definition onlyAExecutor :: "nat NodeExecutor" where
  "onlyAExecutor ctx w =
     (if nid (ctxNode ctx) = ''a''
      then (Inr \<lparr>resNodeId = ''a'', status = Completed, outputHandles = [''runs/r/nodes/a/out.md''],
                 resError = None\<rparr>, Suc w)
      else (Inr \<lparr>resNodeId = nid (ctxNode ctx), status = Failed, outputHandles = [],
                 resError = Some ''no''\<rparr>, Suc w))"

text \<open>The retry policies that \<open>RetryPolicySchema\<close> admits: every number at least one.\<close>

definition RetryPolicySchema :: "RetryPolicy \<Rightarrow> bool" where
  "RetryPolicySchema p \<longleftrightarrow>
     (case maxAttempts p of None \<Rightarrow> True | Some x \<Rightarrow> 1 \<le> x)
     \<and> (case intervalSeconds p of None \<Rightarrow> True | Some x \<Rightarrow> 1 \<le> x)
     \<and> (case backoffRate p of None \<Rightarrow> True | Some x \<Rightarrow> 1 \<le> x)"

subsection \<open>The batch schedule as a function of the graph and the node outcomes\<close>



text \<open>The schedule in the words of the specification, for a whole number \<open>maxPar\<close>: in
  every round the ready nodes, without the failed ones, are sorted and partitioned into
  consecutive chunks of at most \<open>maxPar\<close> nodes; the chunks are started in order until one
  of them contains a node that fails; rounds go on until every node is done or nothing
  is ready. The ids of the started batches are the result. The specification sorts
  lexicographically by node id, which is \<open>sort_key nid\<close> in the order of strings.\<close>

function chunksOf :: "nat \<Rightarrow> 'a list \<Rightarrow> 'a list list" where
  "chunksOf n xs = (if n = 0 \<or> xs = [] then [] else take n xs # chunksOf n (drop n xs))"
  by pat_completeness auto
termination
  by (relation "measure (\<lambda>(n, xs). length xs)") auto

declare chunksOf.simps [simp del]

definition specRecord :: "(NodeSpec \<Rightarrow> bool) \<Rightarrow> string list \<times> string list \<Rightarrow> NodeSpec
     \<Rightarrow> string list \<times> string list" where
  "specRecord completes cf node =
     (if completes node then (setAdd (fst cf) (nid node), snd cf)
      else (fst cf, setAdd (snd cf) (nid node)))"

fun specRunBatches ::
  "(NodeSpec \<Rightarrow> bool) \<Rightarrow> NodeSpec list list \<Rightarrow> string list \<Rightarrow> string list
     \<Rightarrow> string list list \<times> string list \<times> string list" where
  "specRunBatches completes [] completedIds failedIds = ([], completedIds, failedIds)"
| "specRunBatches completes (batch # rest) completedIds failedIds =
     (case foldl (specRecord completes) (completedIds, failedIds) batch of
        (completedIds', failedIds') \<Rightarrow>
          if failedIds' \<noteq> [] then ([map nid batch], completedIds', failedIds')
          else (case specRunBatches completes rest completedIds' failedIds' of
                  (started, completedIds'', failedIds'') \<Rightarrow>
                    (map nid batch # started, completedIds'', failedIds'')))"

fun specLoop ::
  "nat \<Rightarrow> (NodeSpec list \<Rightarrow> NodeSpec list) \<Rightarrow> nat \<Rightarrow> (NodeSpec \<Rightarrow> bool) \<Rightarrow> TaskGraph
     \<Rightarrow> string list \<Rightarrow> string list \<Rightarrow> string list list option" where
  "specLoop 0 sorter maxPar completes g completedIds failedIds = None"
| "specLoop (Suc fuel) sorter maxPar completes g completedIds failedIds =
     (if length completedIds + length failedIds < length (nodes g) then
        (let ready = filter (\<lambda>n. nid n \<notin> set failedIds) (getReadyNodes g (set completedIds))
         in if ready = [] then Some []
            else (case specRunBatches completes (chunksOf maxPar (sorter ready))
                         completedIds failedIds of
                    (started, completedIds', failedIds') \<Rightarrow>
                      if failedIds' \<noteq> [] then Some started
                      else map_option ((@) started)
                             (specLoop fuel sorter maxPar completes g completedIds' failedIds')))
      else Some [])"



text \<open>A comparator that orders the ids as strings. Five independent nodes, listed out of
  order, in a graph that asks for two nodes at a time; outcomes in which \<open>charlie\<close> fails
  and everything else completes; two executors that conform to given outcomes but differ
  in everything else; a configuration that allows seven nodes at a time and one that
  allows one.\<close>

definition lexCompare :: "string \<Rightarrow> string \<Rightarrow> int" where
  "lexCompare a b = (if a < b then - 1 else if a = b then 0 else 1)"

definition fanGraph :: TaskGraph where
  "fanGraph = (mkGraph [mkNode ''delta'' [], mkNode ''alpha'' [], mkNode ''echo'' [],
                        mkNode ''charlie'' [], mkNode ''bravo'' []])
                \<lparr>globalMaxParallelism := Some 2\<rparr>"


definition plainExecutor :: "(string \<Rightarrow> string list option) \<Rightarrow> nat NodeExecutor" where
  "plainExecutor outcome ctx w =
     (Inr \<lparr>resNodeId = nid (ctxNode ctx),
           status = (if outcome (nid (ctxNode ctx)) = None then Failed else Completed),
           outputHandles = (case outcome (nid (ctxNode ctx)) of None \<Rightarrow> [] | Some hs \<Rightarrow> hs),
           resError = None\<rparr>, Suc w)"


definition wideConfig :: GraphExecutorConfig where
  "wideConfig = \<lparr>cfgMaxParallelism = Some 7\<rparr>"



definition serialConfig :: GraphExecutorConfig where
  "serialConfig = \<lparr>cfgMaxParallelism = Some 1\<rparr>"

section \<open>PlaybookStore (packages/core/memory/PlaybookStore.ts)\<close>

text \<open>
  The three playbook files are markdown texts; a bullet is a line \<open>- [id] text\<close> under a
  \<open>## section\<close> heading. The store is its three files (\<open>None\<close> while a file does not
  exist), the diffs recorded in \<open>diff_history.jsonl\<close> (each line is a diff that parses back
  to itself; a missing file reads as the empty history), and the number of identifiers
  drawn so far from \<open>uuidv4().substring(0, 8)\<close>, whose \<open>n\<close>-th value is \<open>uuid n\<close>.
\<close>

datatype PlaybookFile = PlaybookMd | PitfallsMd | PoliciesMd

datatype OpKind = ADD_BULLET | REMOVE_BULLET | EDIT_BULLET

record PlaybookOp =
  opKind :: OpKind
  targetFile :: PlaybookFile
  bulletId :: "string option"
  opBefore :: "string option"
  opAfter :: "string option"
  reason :: string
  opEvidenceRefs :: "string list"
  opConfidence :: real

record PlaybookDiff =
  diffRunId :: string
  diffNodeId :: string
  ops :: "PlaybookOp list"
  createdAt :: string

record PlaybookBullet =
  bid :: string
  btext :: string
  bsection :: string

record PlaybookStore =
  files :: "PlaybookFile \<Rightarrow> string option"
  diffHistory :: "PlaybookDiff list"
  uuidsDrawn :: nat

subsection \<open>Strings and the two regular expressions\<close>

definition newline :: char where
  "newline = CHR 0x0A"

definition isLineTerminator :: "char \<Rightarrow> bool" where
  "isLineTerminator c \<longleftrightarrow> c = CHR 0x0A \<or> c = CHR 0x0D"

text \<open>\<open>s.split(c)\<close> for a one-character separator: never empty, \<open>''''\<close> gives \<open>['''']\<close>.\<close>

fun splitOn :: "char \<Rightarrow> string \<Rightarrow> string list" where
  "splitOn c [] = [[]]"
| "splitOn c (x # xs) =
     (if x = c then [] # splitOn c xs
      else (case splitOn c xs of [] \<Rightarrow> [[x]] | w # ws \<Rightarrow> (x # w) # ws))"

definition trim :: "string \<Rightarrow> string" where
  "trim s = rev (dropWhile isSpace (rev (dropWhile isSpace s)))"

text \<open>\<open>/^[-*]\s+/\<close>: a dash or a star followed by at least one white-space character; and
  what is left of the line when that match is replaced by \<open>''''\<close>.\<close>

fun isBulletLine :: "string \<Rightarrow> bool" where
  "isBulletLine (c # d # rest) = ((c = CHR ''-'' \<or> c = CHR ''*'') \<and> isSpace d)"
| "isBulletLine line = False"

definition stripBulletPrefix :: "string \<Rightarrow> string" where
  "stripBulletPrefix line = dropWhile isSpace (tl line)"

text \<open>\<open>/^[-*]\s+\[([^\]]+)\]\s*(.*)/\<close> on a bullet line: after the prefix an opening
  bracket, at least one character other than \<open>]\<close>, the closing bracket, white space, and the
  text up to the first line terminator. Every repetition is greedy and none can give
  back a character the next item accepts, so the match is unique.\<close>

definition idMatch :: "string \<Rightarrow> (string \<times> string) option" where
  "idMatch line =
     (case stripBulletPrefix line of
        [] \<Rightarrow> None
      | c # r \<Rightarrow>
          if c = CHR ''[''
             \<and> takeWhile (\<lambda>x. x \<noteq> CHR '']'') r \<noteq> []
             \<and> dropWhile (\<lambda>x. x \<noteq> CHR '']'') r \<noteq> []
          then Some (takeWhile (\<lambda>x. x \<noteq> CHR '']'') r,
                     takeWhile (\<lambda>x. \<not> isLineTerminator x)
                       (dropWhile isSpace (tl (dropWhile (\<lambda>x. x \<noteq> CHR '']'') r))))
          else None)"

subsection \<open>Parsing and formatting bullets\<close>

fun parseLines :: "(nat \<Rightarrow> string) \<Rightarrow> string list \<Rightarrow> string \<Rightarrow> nat \<Rightarrow> PlaybookBullet list \<times> nat" where
  "parseLines uuid [] currentSection n = ([], n)"
| "parseLines uuid (line # rest) currentSection n =
     (if startsWith line ''## '' then parseLines uuid rest (trim (drop 3 line)) n
      else if isBulletLine line then
        (case idMatch line of
           Some (i, t) \<Rightarrow>
             (case parseLines uuid rest currentSection n of
                (bullets, n') \<Rightarrow> (\<lparr>bid = i, btext = t, bsection = currentSection\<rparr> # bullets, n'))
         | None \<Rightarrow>
             (case parseLines uuid rest currentSection (Suc n) of
                (bullets, n') \<Rightarrow>
                  (\<lparr>bid = uuid n, btext = stripBulletPrefix line, bsection = currentSection\<rparr>
                     # bullets, n')))
      else parseLines uuid rest currentSection n)"

definition parseBullets :: "(nat \<Rightarrow> string) \<Rightarrow> string \<Rightarrow> nat \<Rightarrow> PlaybookBullet list \<times> nat" where
  "parseBullets uuid content n = parseLines uuid (splitOn newline content) [] n"

definition formatBullet :: "PlaybookBullet \<Rightarrow> string" where
  "formatBullet b = ''- ['' @ bid b @ ''] '' @ btext b"

text \<open>Every heading line is followed by the bullets of its section, in their order in the
  list; the bullet lines of the original are dropped, every other line is kept.\<close>

fun formatLines :: "PlaybookBullet list \<Rightarrow> string list \<Rightarrow> string list" where
  "formatLines bullets [] = []"
| "formatLines bullets (line # rest) =
     (if startsWith line ''## ''
      then line # map formatBullet (filter (\<lambda>b. bsection b = trim (drop 3 line)) bullets)
             @ formatLines bullets rest
      else if \<not> isBulletLine line then line # formatLines bullets rest
      else formatLines bullets rest)"

definition formatBullets :: "PlaybookBullet list \<Rightarrow> string \<Rightarrow> string" where
  "formatBullets bullets originalContent =
     join [newline] (formatLines bullets (splitOn newline originalContent))"

subsection \<open>Applying operations and diffs\<close>

definition inferSection :: "PlaybookFile \<Rightarrow> string" where
  "inferSection file = (case file of PlaybookMd \<Rightarrow> ''Tactics That Work''
     | PitfallsMd \<Rightarrow> ''Known Failure Modes'' | PoliciesMd \<Rightarrow> ''Guardrails'')"

text \<open>\<open>b.id === op.bulletId || b.text === op.before\<close>: an absent field equals no string.\<close>

definition targets :: "PlaybookOp \<Rightarrow> PlaybookBullet \<Rightarrow> bool" where
  "targets op' b \<longleftrightarrow> Some (bid b) = bulletId op' \<or> Some (btext b) = opBefore op'"

definition applyToBullets ::
  "(nat \<Rightarrow> string) \<Rightarrow> PlaybookOp \<Rightarrow> PlaybookBullet list \<Rightarrow> nat \<Rightarrow> PlaybookBullet list \<times> nat" where
  "applyToBullets uuid op' bullets n =
     (case opKind op' of
        ADD_BULLET \<Rightarrow>
          (if orElseStr (bulletId op') [] \<noteq> []
           then (bullets @ [\<lparr>bid = orElseStr (bulletId op') [], btext = orElseStr (opAfter op') [],
                              bsection = inferSection (targetFile op')\<rparr>], n)
           else (bullets @ [\<lparr>bid = uuid n, btext = orElseStr (opAfter op') [],
                              bsection = inferSection (targetFile op')\<rparr>], Suc n))
      | REMOVE_BULLET \<Rightarrow>
          (case findIndex (targets op') bullets of
             Some index \<Rightarrow> (take index bullets @ drop (Suc index) bullets, n)
           | None \<Rightarrow> (bullets, n))
      | EDIT_BULLET \<Rightarrow>
          (case findIndex (targets op') bullets of
             Some index \<Rightarrow>
               (if orElseStr (opAfter op') [] \<noteq> []
                then (bullets[index := (bullets ! index)\<lparr>btext := orElseStr (opAfter op') []\<rparr>], n)
                else (bullets, n))
           | None \<Rightarrow> (bullets, n)))"

text \<open>\<open>applyOp\<close> reads the target file first, so it throws before it writes when the file
  is missing.\<close>

definition applyOp :: "(nat \<Rightarrow> string) \<Rightarrow> PlaybookOp \<Rightarrow> PlaybookStore \<Rightarrow> error + PlaybookStore" where
  "applyOp uuid op' s =
     (case files s (targetFile op') of
        None \<Rightarrow> Inl (Error ''ENOENT'')
      | Some content \<Rightarrow>
          (case parseBullets uuid content (uuidsDrawn s) of
             (bullets, n) \<Rightarrow>
               (case applyToBullets uuid op' bullets n of
                  (bullets', n') \<Rightarrow>
                    Inr (s\<lparr>files := (files s)(targetFile op' := Some (formatBullets bullets' content)),
                           uuidsDrawn := n'\<rparr>))))"

fun applyOps :: "(nat \<Rightarrow> string) \<Rightarrow> PlaybookOp list \<Rightarrow> PlaybookStore \<Rightarrow> error option \<times> PlaybookStore" where
  "applyOps uuid [] s = (None, s)"
| "applyOps uuid (op' # rest) s =
     (case applyOp uuid op' s of
        Inl e \<Rightarrow> (Some e, s)
      | Inr s' \<Rightarrow> applyOps uuid rest s')"

definition PlaybookOpSchema :: "PlaybookOp \<Rightarrow> bool" where
  "PlaybookOpSchema op' \<longleftrightarrow>
     opEvidenceRefs op' \<noteq> [] \<and> 0 \<le> opConfidence op' \<and> opConfidence op' \<le> 1"

definition PlaybookDiffSchema :: "PlaybookDiff \<Rightarrow> bool" where
  "PlaybookDiffSchema d \<longleftrightarrow> ops d \<noteq> [] \<and> list_all PlaybookOpSchema (ops d) \<and> isoDatetime (createdAt d)"

text \<open>\<open>applyDiff\<close>: validate, apply the operations in order, append the diff to the
  history. An operation that throws leaves the earlier ones applied and the history as
  it was.\<close>

definition applyDiff :: "(nat \<Rightarrow> string) \<Rightarrow> PlaybookDiff \<Rightarrow> PlaybookStore \<Rightarrow> error option \<times> PlaybookStore" where
  "applyDiff uuid d s =
     (if \<not> PlaybookDiffSchema d then (Some ZodError, s)
      else (case applyOps uuid (ops d) s of
              (Some e, s') \<Rightarrow> (Some e, s')
            | (None, s') \<Rightarrow> (None, s'\<lparr>diffHistory := diffHistory s' @ [d]\<rparr>)))"

definition inverseOp :: "PlaybookOp \<Rightarrow> PlaybookOp" where
  "inverseOp op' =
     (case opKind op' of
        ADD_BULLET \<Rightarrow> op'\<lparr>opKind := REMOVE_BULLET, opBefore := opAfter op'\<rparr>
      | REMOVE_BULLET \<Rightarrow> op'\<lparr>opKind := ADD_BULLET, opAfter := opBefore op'\<rparr>
      | EDIT_BULLET \<Rightarrow> op'\<lparr>opBefore := opAfter op', opAfter := opBefore op'\<rparr>)"

text \<open>\<open>rollback\<close>: the first diff of the history with the given \<open>createdAt\<close>, inverted
  operation by operation in the original order, applied as a new diff stamped \<open>now\<close>.\<close>

definition rollback ::
  "(nat \<Rightarrow> string) \<Rightarrow> string \<Rightarrow> string \<Rightarrow> PlaybookStore \<Rightarrow> error option \<times> PlaybookStore" where
  "rollback uuid now stamp s =
     (case find (\<lambda>d. createdAt d = stamp) (diffHistory s) of
        None \<Rightarrow> (Some (Error (''Diff not found: '' @ stamp)), s)
      | Some diffToRollback \<Rightarrow>
          applyDiff uuid \<lparr>diffRunId = diffRunId diffToRollback @ ''_rollback'',
                          diffNodeId = ''rollback'',
                          ops = map inverseOp (ops diffToRollback),
                          createdAt = now\<rparr> s)"

text \<open>The helpers that build operations. \<open>removeBullet\<close> names the bullet by its id and
  records neither \<open>before\<close> nor \<open>after\<close>; the schema supplies the default confidence.\<close>

definition removeBullet :: "PlaybookFile \<Rightarrow> string \<Rightarrow> string \<Rightarrow> string list \<Rightarrow> error + PlaybookOp" where
  "removeBullet file i why refs =
     (let op' = \<lparr>opKind = REMOVE_BULLET, targetFile = file, bulletId = Some i, opBefore = None,
                 opAfter = None, reason = why, opEvidenceRefs = refs, opConfidence = 7 / 10\<rparr>
      in if PlaybookOpSchema op' then Inr op' else Inl ZodError)"

definition addBullet ::
  "string \<Rightarrow> PlaybookFile \<Rightarrow> string \<Rightarrow> string \<Rightarrow> string list \<Rightarrow> real \<Rightarrow> error + PlaybookOp" where
  "addBullet freshId file t why refs c =
     (let op' = \<lparr>opKind = ADD_BULLET, targetFile = file, bulletId = Some freshId, opBefore = None,
                 opAfter = Some t, reason = why, opEvidenceRefs = refs, opConfidence = c\<rparr>
      in if PlaybookOpSchema op' then Inr op' else Inl ZodError)"

definition bulletsOf :: "(nat \<Rightarrow> string) \<Rightarrow> PlaybookStore \<Rightarrow> PlaybookFile \<Rightarrow> PlaybookBullet list" where
  "bulletsOf uuid s file =
     (case files s file of None \<Rightarrow> [] | Some content \<Rightarrow> fst (parseBullets uuid content (uuidsDrawn s)))"

text \<open>A playbook with one bullet, and the diff that \<open>removeBullet\<close> builds for it.\<close>

definition tacticsPlaybook :: string where
  "tacticsPlaybook = join [newline]
     [''# Playbook'', [], ''## Tactics That Work'', [], ''- [b1] Write tests first'', []]"

definition tacticsStore :: PlaybookStore where
  "tacticsStore = \<lparr>files = (\<lambda>f. if f = PlaybookMd then Some tacticsPlaybook else None),
                    diffHistory = [], uuidsDrawn = 0\<rparr>"

definition removalDiff :: PlaybookDiff where
  "removalDiff = \<lparr>diffRunId = ''run-0001'', diffNodeId = ''tidy'',
     ops = [\<lparr>opKind = REMOVE_BULLET, targetFile = PlaybookMd, bulletId = Some ''b1'',
             opBefore = None, opAfter = None, reason = ''obsolete'', opEvidenceRefs = [''notes.md''],
             opConfidence = 7 / 10\<rparr>],
     createdAt = ''2025-01-01T00:00:00.000Z''\<rparr>"

text \<open>Identifiers for the examples, and the store after the diff and after its rollback.\<close>

definition sampleUuid :: "nat \<Rightarrow> string" where
  "sampleUuid n = replicate 7 (CHR ''0'') @ [char_of (97 + n mod 6)]"

definition afterRemoval :: PlaybookStore where
  "afterRemoval = snd (applyDiff sampleUuid removalDiff tacticsStore)"

definition afterRollback :: PlaybookStore where
  "afterRollback = snd (rollback sampleUuid ''2025-01-02T00:00:00.000Z'' (createdAt removalDiff) afterRemoval)"

section \<open>ArtifactStore and Curator (memory/ArtifactStore.ts, maintenance/Maintenance.ts)\<close>

subsection \<open>Paths\<close>

text \<open>
  All stores write through \<open>fs\<close> to paths they build with \<open>path.join\<close>. The file system is
  modelled as a map from path strings to the contents of regular files; directories and
  links are not modelled, \<open>mkdir\<close> changes nothing in it, and a write always succeeds.
  \<open>path.join\<close> follows Node's POSIX implementation: the non-empty arguments are joined by
  \<open>/\<close> and the result is normalised, \<open>.\<close> and empty segments dropped, \<open>..\<close> removing the
  segment before it where there is one.
\<close>

type_synonym FileSystem = "string \<Rightarrow> string option"

definition writeFile :: "string \<Rightarrow> string \<Rightarrow> FileSystem \<Rightarrow> FileSystem" where
  "writeFile p content fs = fs(p := Some content)"

definition normStep :: "bool \<Rightarrow> string list \<Rightarrow> string \<Rightarrow> string list" where
  "normStep allowAboveRoot res seg =
     (if seg = [] \<or> seg = ''.'' then res
      else if seg = ''..'' then
        (if res \<noteq> [] \<and> last res \<noteq> ''..'' then butlast res
         else if allowAboveRoot then res @ [''..''] else res)
      else res @ [seg])"

definition normalizeString :: "bool \<Rightarrow> string \<Rightarrow> string list" where
  "normalizeString allowAboveRoot p = foldl (normStep allowAboveRoot) [] (splitOn (CHR ''/'') p)"

definition normalize :: "string \<Rightarrow> string" where
  "normalize p =
     (if p = [] then ''.''
      else (let isAbsolute = (hd p = CHR ''/'');
                trailingSeparator = (last p = CHR ''/'');
                segs = normalizeString (\<not> isAbsolute) p
            in if segs = [] then (if isAbsolute then ''/'' else if trailingSeparator then ''./'' else ''.'')
               else (if isAbsolute then ''/'' else []) @ join ''/'' segs
                      @ (if trailingSeparator then ''/'' else [])))"

definition pathJoin :: "string list \<Rightarrow> string" where
  "pathJoin args =
     (let joined = join ''/'' (filter (\<lambda>arg. arg \<noteq> []) args)
      in if joined = [] then ''.'' else normalize joined)"

text \<open>A plain file name, the last segment of a path, and the directory part that
  \<open>path.join\<close> puts before a plain file name.\<close>

definition plainName :: "string \<Rightarrow> bool" where
  "plainName name \<longleftrightarrow> name \<noteq> [] \<and> CHR ''/'' \<notin> set name \<and> name \<noteq> ''.'' \<and> name \<noteq> ''..''"

definition baseName :: "string \<Rightarrow> string" where
  "baseName p = rev (takeWhile (\<lambda>c. c \<noteq> CHR ''/'') (rev p))"

definition dirPrefix :: "string list \<Rightarrow> string" where
  "dirPrefix dirs =
     (let joined = join ''/'' (filter (\<lambda>arg. arg \<noteq> []) dirs);
          isAbsolute = (joined \<noteq> [] \<and> hd joined = CHR ''/'');
          segs = (if joined = [] then [] else normalizeString (\<not> isAbsolute) joined)
      in (if isAbsolute then ''/'' else []) @ (if segs = [] then [] else join ''/'' segs @ ''/''))"

subsection \<open>Where the stores keep their files\<close>

definition categoryName :: "MemoryCategory \<Rightarrow> string" where
  "categoryName c = (case c of Facts \<Rightarrow> ''facts'' | Constraints \<Rightarrow> ''constraints''
     | Preferences \<Rightarrow> ''preferences'' | Tactics \<Rightarrow> ''tactics'' | Pitfalls \<Rightarrow> ''pitfalls'')"

definition getCategoryPath :: "string \<Rightarrow> MemoryCategory \<Rightarrow> string" where
  "getCategoryPath basePath category = pathJoin [basePath, categoryName category @ ''.jsonl'']"

definition fileName :: "PlaybookFile \<Rightarrow> string" where
  "fileName file = (case file of PlaybookMd \<Rightarrow> ''playbook.md'' | PitfallsMd \<Rightarrow> ''pitfalls.md''
     | PoliciesMd \<Rightarrow> ''policies.md'')"

definition getFilePath :: "string \<Rightarrow> PlaybookFile \<Rightarrow> string" where
  "getFilePath basePath file = pathJoin [basePath, fileName file]"

definition diffHistoryPath :: "string \<Rightarrow> string" where
  "diffHistoryPath basePath = pathJoin [basePath, ''diff_history.jsonl'']"

definition buildPath :: "string \<Rightarrow> string \<Rightarrow> string \<Rightarrow> string" where
  "buildPath basePath namespace name = pathJoin [basePath, namespace, name]"

subsection \<open>The platform and the machine\<close>

text \<open>
  What the code takes from its platform: the \<open>n\<close>-th identifier \<open>uuidv4()\<close> returns, the
  \<open>k\<close>-th reading \<open>new Date().toISOString()\<close> returns, the SHA-256 digest in hex, and
  \<open>JSON.stringify\<close> on the three kinds of object that are written. The machine is the file
  system, the map the \<open>MemoryStore\<close> holds in memory, and how many identifiers and clock
  readings have been drawn.
\<close>

record Platform =
  uuidv4 :: "nat \<Rightarrow> string"
  toISOString :: "nat \<Rightarrow> string"
  sha256Hex :: "string \<Rightarrow> string"
  stringifyDelta :: "MemoryDelta \<Rightarrow> string"
  stringifyDiff :: "PlaybookDiff \<Rightarrow> string"
  stringifyHandle :: "string \<times> string \<times> string \<times> string list \<times> string \<Rightarrow> string"

record Machine =
  fileSystem :: FileSystem
  memoryMap :: "MemoryCategory \<Rightarrow> MemoryItem list"
  uuidCount :: nat
  clockCount :: nat

record ArtifactHandle =
  uri :: string
  contentHash :: string
  handleType :: string
  tags :: "string list"
  shortSummary :: string

definition computeHash :: "Platform \<Rightarrow> string \<Rightarrow> string" where
  "computeHash pf content = take 16 (sha256Hex pf content)"

text \<open>\<open>putJson\<close>, given the serialised object and the summary that \<open>generateJsonSummary\<close>
  makes of it, which is used when no summary or an empty one is passed: the content goes
  to the artifact's path and the handle to that path with \<open>.meta.json\<close> appended.
  \<open>ArtifactHandleSchema\<close> accepts every handle built here.\<close>

definition putJson ::
  "Platform \<Rightarrow> string \<Rightarrow> string \<Rightarrow> string \<Rightarrow> string \<Rightarrow> string \<Rightarrow> string list \<Rightarrow> string option
     \<Rightarrow> FileSystem \<Rightarrow> ArtifactHandle \<times> FileSystem" where
  "putJson pf basePath namespace name content jsonSummary tagList summaryOpt fs =
     (let artifactPath = buildPath basePath namespace name;
          handle = \<lparr>uri = artifactPath, contentHash = computeHash pf content,
                    handleType = ''json'', tags = tagList,
                    shortSummary = orElseStr summaryOpt jsonSummary\<rparr>
      in (handle,
          writeFile (artifactPath @ ''.meta.json'')
            (stringifyHandle pf (uri handle, contentHash handle, handleType handle, tags handle,
                                 shortSummary handle))
            (writeFile artifactPath content fs)))"

subsection \<open>Generating the delta and the diff\<close>

record RunSpec =
  specRunId :: string
  specObjective :: string

record Reflection =
  reflRunId :: string
  reflNodeId :: string
  whatWorked :: "string list"
  whatFailed :: "string list"
  nextTime :: "string list"
  missingInfo :: "string list"
  brittleAssumptions :: "string list"
  reflCreatedAt :: string

record Curator =
  artifactBasePath :: string
  memoryBasePath :: string
  playbookBasePath :: string

definition createItem :: "string \<Rightarrow> string \<Rightarrow> string list \<Rightarrow> real \<Rightarrow> error + MemoryItem" where
  "createItem freshId t refs c =
     (let item = \<lparr>mid = freshId, mtext = t, evidenceRefs = refs, confidence = c\<rparr>
      in if MemoryItemSchema item then Inr item else Inl ZodError)"

text \<open>\<open>texts.map(t => MemoryStore.createItem(t, refs, c))\<close>, drawing one identifier per
  item; the first item that the schema rejects throws.\<close>

fun createItems :: "(nat \<Rightarrow> string) \<Rightarrow> nat \<Rightarrow> string list \<Rightarrow> string list \<Rightarrow> real \<Rightarrow> error + MemoryItem list" where
  "createItems uuid n [] refs c = Inr []"
| "createItems uuid n (t # ts) refs c =
     (case createItem (uuid n) t refs c of
        Inl e \<Rightarrow> Inl e
      | Inr item \<Rightarrow>
          (case createItems uuid (Suc n) ts refs c of
             Inl e \<Rightarrow> Inl e
           | Inr items \<Rightarrow> Inr (item # items)))"

definition createDelta :: "string \<Rightarrow> string \<Rightarrow> string \<Rightarrow> MemoryAdds \<Rightarrow> error + MemoryDelta" where
  "createDelta now runId' nodeId' adds' =
     (let d = \<lparr>deltaRunId = runId', deltaNodeId = nodeId', adds = adds', deltaCreatedAt = now\<rparr>
      in if MemoryDeltaSchema d then Inr d else Inl ZodError)"

definition generateMemoryDelta ::
  "Platform \<Rightarrow> nat \<Rightarrow> nat \<Rightarrow> RunSpec \<Rightarrow> NodeSpec \<Rightarrow> Reflection \<Rightarrow> error + MemoryDelta" where
  "generateMemoryDelta pf n k run node reflection =
     (let evidenceRef = artifactNamespace node @ ''/reflection.json''
      in case createItems (uuidv4 pf) n (whatWorked reflection) [evidenceRef] (8 / 10) of
           Inl e \<Rightarrow> Inl e
         | Inr facts \<Rightarrow>
        (case createItems (uuidv4 pf) (n + length (whatWorked reflection))
                (whatFailed reflection) [evidenceRef] (9 / 10) of
           Inl e \<Rightarrow> Inl e
         | Inr pitfalls \<Rightarrow>
        (case createItems (uuidv4 pf)
                (n + length (whatWorked reflection) + length (whatFailed reflection))
                (nextTime reflection) [evidenceRef] (7 / 10) of
           Inl e \<Rightarrow> Inl e
         | Inr tactics \<Rightarrow>
             createDelta (toISOString pf k) (specRunId run) (nid node)
               \<lparr>addsFacts = facts, addsConstraints = [], addsPreferences = [],
                addsTactics = tactics, addsPitfalls = pitfalls\<rparr>)))"

fun addBullets ::
  "(nat \<Rightarrow> string) \<Rightarrow> nat \<Rightarrow> PlaybookFile \<Rightarrow> string list \<Rightarrow> string \<Rightarrow> string list \<Rightarrow> real
     \<Rightarrow> error + PlaybookOp list" where
  "addBullets uuid n file [] why refs c = Inr []"
| "addBullets uuid n file (t # ts) why refs c =
     (case addBullet (take 8 (uuid n)) file t why refs c of
        Inl e \<Rightarrow> Inl e
      | Inr op' \<Rightarrow>
          (case addBullets uuid (Suc n) file ts why refs c of
             Inl e \<Rightarrow> Inl e
           | Inr ops' \<Rightarrow> Inr (op' # ops')))"

definition createDiff :: "string \<Rightarrow> string \<Rightarrow> string \<Rightarrow> PlaybookOp list \<Rightarrow> error + PlaybookDiff" where
  "createDiff now runId' nodeId' ops' =
     (let d = \<lparr>diffRunId = runId', diffNodeId = nodeId', ops = ops', createdAt = now\<rparr>
      in if PlaybookDiffSchema d then Inr d else Inl ZodError)"

definition nodeTypeName :: "NodeType \<Rightarrow> string" where
  "nodeTypeName t = (case t of Plan \<Rightarrow> ''plan'' | Research \<Rightarrow> ''research'' | Execute \<Rightarrow> ''execute''
     | Synthesize \<Rightarrow> ''synthesize'' | Verify \<Rightarrow> ''verify'' | Curate \<Rightarrow> ''curate''
     | Commit \<Rightarrow> ''commit'')"

text \<open>At most three tactics for \<open>playbook.md\<close>, at most three failures for \<open>pitfalls.md\<close>,
  and one bullet about the node when there is neither.\<close>

definition generatePlaybookDiff ::
  "Platform \<Rightarrow> nat \<Rightarrow> nat \<Rightarrow> RunSpec \<Rightarrow> NodeSpec \<Rightarrow> Reflection \<Rightarrow> error + PlaybookDiff" where
  "generatePlaybookDiff pf n k run node reflection =
     (let evidenceRef = artifactNamespace node @ ''/reflection.json'';
          tactics = take 3 (nextTime reflection);
          failures = take 3 (whatFailed reflection)
      in case addBullets (uuidv4 pf) n PlaybookMd tactics (''Learned from '' @ nid node)
                [evidenceRef] (7 / 10) of
           Inl e \<Rightarrow> Inl e
         | Inr tacticOps \<Rightarrow>
        (case addBullets (uuidv4 pf) (n + length tactics) PitfallsMd failures
                (''Failure in '' @ nid node) [evidenceRef] (9 / 10) of
           Inl e \<Rightarrow> Inl e
         | Inr failureOps \<Rightarrow>
        (case (if tacticOps @ failureOps = []
               then addBullets (uuidv4 pf) n PlaybookMd
                      [''Completed '' @ nodeTypeName (ntype node) @ '' node: ''
                         @ take 50 (objective node)]
                      (''Node '' @ nid node @ '' completed'') [evidenceRef] (5 / 10)
               else Inr []) of
           Inl e \<Rightarrow> Inl e
         | Inr fallbackOps \<Rightarrow>
             createDiff (toISOString pf k) (specRunId run) (nid node)
               (tacticOps @ failureOps @ fallbackOps))))"

definition uuidsForDelta :: "Reflection \<Rightarrow> nat" where
  "uuidsForDelta reflection =
     length (whatWorked reflection) + length (whatFailed reflection) + length (nextTime reflection)"

definition uuidsForDiff :: "Reflection \<Rightarrow> nat" where
  "uuidsForDiff reflection =
     (if take 3 (nextTime reflection) @ take 3 (whatFailed reflection) = [] then 1
      else length (take 3 (nextTime reflection)) + length (take 3 (whatFailed reflection)))"

text \<open>\<open>curate\<close>: generate both objects, then store each with \<open>putJson\<close> in the node's
  artifact namespace. A generation that throws leaves the file system as it was.\<close>

definition curate ::
  "Platform \<Rightarrow> Curator \<Rightarrow> RunSpec \<Rightarrow> NodeSpec \<Rightarrow> Reflection \<Rightarrow> Machine
     \<Rightarrow> (error + MemoryDelta \<times> PlaybookDiff) \<times> Machine" where
  "curate pf cur run node reflection m =
     (case generateMemoryDelta pf (uuidCount m) (clockCount m) run node reflection of
        Inl e \<Rightarrow> (Inl e, m\<lparr>uuidCount := uuidCount m + uuidsForDelta reflection,
                            clockCount := Suc (clockCount m)\<rparr>)
      | Inr memoryDelta \<Rightarrow>
          (case generatePlaybookDiff pf (uuidCount m + uuidsForDelta reflection)
                  (Suc (clockCount m)) run node reflection of
             Inl e \<Rightarrow> (Inl e, m\<lparr>uuidCount := uuidCount m + uuidsForDelta reflection
                                                 + uuidsForDiff reflection,
                                 clockCount := Suc (Suc (clockCount m))\<rparr>)
           | Inr playbookDiff \<Rightarrow>
               (Inr (memoryDelta, playbookDiff),
                m\<lparr>fileSystem :=
                     snd (putJson pf (artifactBasePath cur) (artifactNamespace node)
                            ''playbook_diff.json'' (stringifyDiff pf playbookDiff)
                            ''Object with keys: runId, nodeId, ops, createdAt''
                            [''playbook'', ''diff''] (Some (''Playbook diff from '' @ nid node))
                       (snd (putJson pf (artifactBasePath cur) (artifactNamespace node)
                               ''memory_delta.json'' (stringifyDelta pf memoryDelta)
                               ''Object with keys: runId, nodeId, adds, createdAt''
                               [''memory'', ''delta''] (Some (''Memory delta from '' @ nid node))
                               (fileSystem m)))),
                   uuidCount := uuidCount m + uuidsForDelta reflection + uuidsForDiff reflection,
                   clockCount := Suc (Suc (clockCount m))\<rparr>)))"

text \<open>A curator in the layout the orchestrator uses, a reflection, and a machine whose
  stores hold data.\<close>

definition exampleCurator :: Curator where
  "exampleCurator = \<lparr>artifactBasePath = ''data/artifacts'', memoryBasePath = ''data/memory'',
                      playbookBasePath = ''data/playbook''\<rparr>"

definition examplePlatform :: Platform where
  "examplePlatform = \<lparr>uuidv4 = (\<lambda>n. replicate (Suc n) (CHR ''a'')),
     toISOString = (\<lambda>k. ''2025-01-01T00:00:00.000Z''),
     sha256Hex = (\<lambda>content. ''0123456789abcdef0123''),
     stringifyDelta = (\<lambda>d. ''delta of '' @ deltaNodeId d),
     stringifyDiff = (\<lambda>d. ''diff of '' @ diffNodeId d),
     stringifyHandle = (\<lambda>h. ''handle of '' @ fst h)\<rparr>"

definition exampleReflection :: Reflection where
  "exampleReflection = \<lparr>reflRunId = ''run-0001'', reflNodeId = ''top'',
     whatWorked = [''small steps''], whatFailed = [''guessing''], nextTime = [''read first''],
     missingInfo = [], brittleAssumptions = [], reflCreatedAt = ''2025-01-01T00:00:00.000Z''\<rparr>"

definition exampleMachine :: Machine where
  "exampleMachine = \<lparr>fileSystem = (\<lambda>p. if p = ''data/memory/facts.jsonl'' then Some ''{}''
                                       else if p = ''data/playbook/playbook.md'' then Some tacticsPlaybook
                                       else None),
     memoryMap = (\<lambda>c. if c = Facts then [exampleItemA] else []),
     uuidCount = 0, clockCount = 0\<rparr>"

chapter \<open>Properties\<close>

section \<open>Upsert by id is idempotent\<close>

lemma findIndex_None_iff: "findIndex P xs = None \<longleftrightarrow> (\<forall>x \<in> set xs. \<not> P x)"
  by (induction xs) (auto split: option.splits)

lemma findIndex_Some_D:
  "findIndex P xs = Some i \<Longrightarrow> i < length xs \<and> P (xs ! i) \<and> (\<forall>j < i. \<not> P (xs ! j))"
proof (induction xs arbitrary: i)
  case Nil
  then show ?case by simp
next
  case (Cons x xs)
  show ?case
  proof (cases "P x")
    case True
    with Cons.prems show ?thesis by simp
  next
    case False
    with Cons.prems obtain k where k: "findIndex P xs = Some k" "i = Suc k"
      by (auto split: option.splits)
    from Cons.IH[OF k(1)] have ih: "k < length xs" "P (xs ! k)" "\<forall>j < k. \<not> P (xs ! j)"
      by auto
    have "\<forall>j < Suc k. \<not> P ((x # xs) ! j)"
    proof (intro allI impI)
      fix j assume "j < Suc k"
      then show "\<not> P ((x # xs) ! j)"
        using False ih(3) by (cases j) auto
    qed
    with ih k show ?thesis by simp
  qed
qed

lemma upsert_Nil: "upsert [] d = [d]"
  by (simp add: upsert_def)

lemma upsert_Cons:
  "upsert (y # ys) d = (if mid y = mid d then d # ys else y # upsert ys d)"
  by (simp add: upsert_def split: option.splits)

lemma foldl_upsert_Cons:
  "foldl upsert (y # ys) ds =
     last (y # filter (\<lambda>d. mid d = mid y) ds) # foldl upsert ys (filter (\<lambda>d. mid d \<noteq> mid y) ds)"
proof (induction ds arbitrary: y ys)
  case Nil
  then show ?case by simp
next
  case (Cons d ds)
  show ?case
  proof (cases "mid y = mid d")
    case True
    then show ?thesis
      using Cons.IH[of d ys] by (simp add: upsert_Cons)
  next
    case False
    then show ?thesis
      using Cons.IH[of y "upsert ys d"] by (simp add: upsert_Cons) 
  qed
qed

lemma mid_last_filter: "mid (last (y # filter (\<lambda>d. mid d = mid y) ds)) = mid y"
proof (cases "filter (\<lambda>d. mid d = mid y) ds = []")
  case True
  then show ?thesis by simp
next
  case False
  then have "last (filter (\<lambda>d. mid d = mid y) ds) \<in> set (filter (\<lambda>d. mid d = mid y) ds)"
    by (rule last_in_set)
  with False show ?thesis by simp
qed

lemma last_last_filter:
  "last (last (y # filter (\<lambda>d. mid d = i) ds) # filter (\<lambda>d. mid d = i) ds)
     = last (y # filter (\<lambda>d. mid d = i) ds)"
  by simp

lemma foldl_upsert_Nil_idem: "foldl upsert (foldl upsert [] ds) ds = foldl upsert [] ds"
proof (induction ds rule: length_induct)
  case (1 ds)
  show ?case
  proof (cases ds)
    case Nil
    then show ?thesis by simp
  next
    case (Cons d ds')
    let ?h = "last (d # filter (\<lambda>e. mid e = mid d) ds')"
    let ?r = "filter (\<lambda>e. mid e \<noteq> mid d) ds'"
    have hid: "mid ?h = mid d" by (rule mid_last_filter)
    have first: "foldl upsert [] ds = ?h # foldl upsert [] ?r"
      using Cons by (simp add: upsert_Nil foldl_upsert_Cons)
    have "length ?r < length ds" using Cons by (simp add: le_imp_less_Suc)
    with 1 have ih: "foldl upsert (foldl upsert [] ?r) ?r = foldl upsert [] ?r" by blast
    have "foldl upsert (?h # foldl upsert [] ?r) ds
            = last (?h # filter (\<lambda>e. mid e = mid ?h) ds) # foldl upsert (foldl upsert [] ?r) (filter (\<lambda>e. mid e \<noteq> mid ?h) ds)"
      by (rule foldl_upsert_Cons)
    also have "\<dots> = ?h # foldl upsert (foldl upsert [] ?r) ?r"
      unfolding hid using Cons by simp
    finally show ?thesis using first ih by simp
  qed
qed

lemma foldl_upsert_idem: "foldl upsert (foldl upsert ys ds) ds = foldl upsert ys ds"
proof (induction ys arbitrary: ds)
  case Nil
  show ?case by (rule foldl_upsert_Nil_idem)
next
  case (Cons y ys)
  let ?h = "last (y # filter (\<lambda>e. mid e = mid y) ds)"
  let ?r = "filter (\<lambda>e. mid e \<noteq> mid y) ds"
  have hid: "mid ?h = mid y" by (rule mid_last_filter)
  have first: "foldl upsert (y # ys) ds = ?h # foldl upsert ys ?r"
    by (rule foldl_upsert_Cons)
  have "foldl upsert (?h # foldl upsert ys ?r) ds
          = last (?h # filter (\<lambda>e. mid e = mid ?h) ds) # foldl upsert (foldl upsert ys ?r) (filter (\<lambda>e. mid e \<noteq> mid ?h) ds)"
    by (rule foldl_upsert_Cons)
  also have "\<dots> = ?h # foldl upsert (foldl upsert ys ?r) ?r"
    unfolding hid by simp
  finally show ?case using first Cons.IH[of ?r] by simp
qed

lemma foldl_addItem:
  "foldl (\<lambda>s' item. addItem c item s') s items =
     (if items = [] then s
      else s\<lparr>memory := (memory s)(c := foldl upsert (memory s c) items),
             disk := (disk s)(c := Some (foldl upsert (memory s c) items))\<rparr>)"
proof (induction items arbitrary: s)
  case Nil
  then show ?case by simp
next
  case (Cons a items)
  show ?case
    unfolding foldl_Cons Cons.IH[of "addItem c a s"]
    by (simp add: addItem_def saveCategory_def)
qed

lemma applyCategory_eq:
  "applyCategory d s c =
     (if addsOf (adds d) c = [] then s
      else s\<lparr>memory := (memory s)(c := foldl upsert (memory s c) (addsOf (adds d) c)),
             disk := (disk s)(c := Some (foldl upsert (memory s c) (addsOf (adds d) c)))\<rparr>)"
  unfolding applyCategory_def by (rule foldl_addItem)

lemma memory_applyCategory:
  "memory (applyCategory d s c) c' =
     (if c' = c then foldl upsert (memory s c) (addsOf (adds d) c) else memory s c')"
  by (simp add: applyCategory_eq)

lemma disk_applyCategory:
  "disk (applyCategory d s c) c' =
     (if c' = c \<and> addsOf (adds d) c \<noteq> [] then Some (foldl upsert (memory s c) (addsOf (adds d) c))
      else disk s c')"
  by (simp add: applyCategory_eq)

lemma more_applyCategory: "MemoryStore.more (applyCategory d s c) = MemoryStore.more s"
  by (simp add: applyCategory_eq)

lemma memory_applyCategories:
  "distinct cs \<Longrightarrow> memory (foldl (applyCategory d) s cs) c =
     (if c \<in> set cs then foldl upsert (memory s c) (addsOf (adds d) c) else memory s c)"
  by (induction cs arbitrary: s) (auto simp: memory_applyCategory)

lemma disk_applyCategories:
  "distinct cs \<Longrightarrow> disk (foldl (applyCategory d) s cs) c =
     (if c \<in> set cs \<and> addsOf (adds d) c \<noteq> []
      then Some (foldl upsert (memory s c) (addsOf (adds d) c)) else disk s c)"
  by (induction cs arbitrary: s) (auto simp: memory_applyCategory disk_applyCategory)

lemma more_applyCategories:
  "MemoryStore.more (foldl (applyCategory d) s cs) = MemoryStore.more s"
  by (induction cs arbitrary: s) (auto simp: more_applyCategory)

lemma distinct_allCategories: "distinct allCategories"
  by (simp add: allCategories_def)

lemma applyCategories_idem:
  "foldl (applyCategory d) (foldl (applyCategory d) s allCategories) allCategories
     = foldl (applyCategory d) s allCategories"
proof (rule MemoryStore.equality)
  show "memory (foldl (applyCategory d) (foldl (applyCategory d) s allCategories) allCategories)
          = memory (foldl (applyCategory d) s allCategories)"
    by (rule ext) (simp add: memory_applyCategories distinct_allCategories foldl_upsert_idem)
  show "disk (foldl (applyCategory d) (foldl (applyCategory d) s allCategories) allCategories)
          = disk (foldl (applyCategory d) s allCategories)"
    by (rule ext)
       (simp add: memory_applyCategories disk_applyCategories distinct_allCategories foldl_upsert_idem)
  show "MemoryStore.more (foldl (applyCategory d) (foldl (applyCategory d) s allCategories) allCategories)
          = MemoryStore.more (foldl (applyCategory d) s allCategories)"
    by (simp add: more_applyCategories)
qed

text \<open>
  C10. Applying a MemoryDelta a second time changes nothing: whenever \<open>applyMemoryDelta\<close>
  succeeds on a store and yields the store \<open>s1\<close>, applying the same delta to \<open>s1\<close> succeeds
  and yields \<open>s1\<close> again (the in-memory categories and the saved files alike), because
  every added item replaces the item that already carries its id.
\<close>

theorem applyMemoryDelta_idempotent:
  "applyMemoryDelta d s = Inr s1 \<Longrightarrow> applyMemoryDelta d s1 = Inr s1"
  by (auto simp: applyMemoryDelta_def applyCategories_idem split: if_splits)

theorem applyMemoryDelta_idempotent_witness:
  "\<exists>s1. applyMemoryDelta exampleDelta emptyStore = Inr s1
      \<and> memory s1 Facts = [exampleItemA', exampleItemB]
      \<and> applyMemoryDelta exampleDelta s1 = Inr s1"
proof -
  have stamp: "isoDatetime ''2025-01-01T00:00:00.000Z''" by code_simp
  show ?thesis
    using applyMemoryDelta_idempotent[of exampleDelta emptyStore]
    by (simp add: applyMemoryDelta_def MemoryDeltaSchema_def allCategories_def addsOf_def
        exampleDelta_def emptyStore_def MemoryItemSchema_def exampleItemA_def exampleItemB_def
        exampleItemA'_def applyCategory_def addItem_def saveCategory_def upsert_def stamp)
qed

section \<open>Keyword retrieval computes the specified scores\<close>













section \<open>Uncompacted events and the preserved history\<close>

lemma findIndex_first:
  "P e \<Longrightarrow> \<forall>x \<in> set pre. \<not> P x \<Longrightarrow> findIndex P (pre @ e # post) = Some (length pre)"
  by (induction pre) auto

lemma getEvents_runQuery: "getEvents s (runQuery r) = eventsFile s r"
  by (simp add: getEvents_def runQuery_def)

lemma getUncompactedEvents_match:
  assumes "getCompactionEvents s r \<noteq> []"
    and "getEvents s (runQuery r) = pre @ e # post"
    and "compositeId e = toEventId (span (last (getCompactionEvents s r)))"
    and "\<forall>x \<in> set pre. compositeId x \<noteq> toEventId (span (last (getCompactionEvents s r)))"
  shows "getUncompactedEvents s r = post"
proof -
  let ?b = "toEventId (span (last (getCompactionEvents s r)))"
  have "findIndex (\<lambda>e. compositeId e = ?b) (pre @ e # post) = Some (length pre)"
    using assms(3,4) by (intro findIndex_first) simp_all
  then show ?thesis
    using assms(1,2) by (simp add: getUncompactedEvents_def Let_def)
qed

lemma getUncompactedEvents_no_match:
  assumes "\<forall>x \<in> set (getEvents s (runQuery r)).
             compositeId x \<noteq> toEventId (span (last (getCompactionEvents s r)))"
  shows "getUncompactedEvents s r = getEvents s (runQuery r)"
proof -
  let ?b = "toEventId (span (last (getCompactionEvents s r)))"
  have "findIndex (\<lambda>e. compositeId e = ?b) (getEvents s (runQuery r)) = None"
    using assms by (simp add: findIndex_None_iff)
  then show ?thesis
    by (simp add: getUncompactedEvents_def Let_def)
qed

lemma appendCompactionEvent_Inr:
  assumes "appendCompactionEvent datetime now s c = Inr s'"
  shows "compactionsFile s' (cRunId c) = compactionsFile s (cRunId c) @ [c]"
    and "eventsFile s' = (eventsFile s)
           (cRunId c := eventsFile s (cRunId c) @ [(compactionMirror c)\<lparr>evTs := now\<rparr>])"
  using assms
  by (auto simp: appendCompactionEvent_def appendEvent_def compactionMirror_def Let_def
           split: if_splits)

text \<open>
  C7. In a run that has a recorded compaction, \<open>getUncompactedEvents\<close> returns exactly the
  events after the first event whose recomputed composite identity
  (\<open>runId:nodeId:stepId:type:ts\<close>) equals \<open>span.toEventId\<close> of the latest compaction, and all
  events when no event has that identity. \<open>getEvents\<close> with only the run id returns the whole
  events file; recording a compaction appends the compaction to the compactions file and
  one mirror event to the events file, so every earlier event of every run is still
  returned.
\<close>

theorem getUncompactedEvents_after_span:
  "(getCompactionEvents s r \<noteq> [] \<longrightarrow>
      (\<forall>pre e post.
          getEvents s (runQuery r) = pre @ e # post
          \<and> compositeId e = toEventId (span (last (getCompactionEvents s r)))
          \<and> (\<forall>x \<in> set pre. compositeId x \<noteq> toEventId (span (last (getCompactionEvents s r))))
          \<longrightarrow> getUncompactedEvents s r = post)
      \<and> ((\<forall>x \<in> set (getEvents s (runQuery r)).
              compositeId x \<noteq> toEventId (span (last (getCompactionEvents s r))))
          \<longrightarrow> getUncompactedEvents s r = getEvents s (runQuery r)))
   \<and> getEvents s (runQuery r) = eventsFile s r
   \<and> (appendCompactionEvent datetime now s c = Inr s' \<longrightarrow>
        getCompactionEvents s' (cRunId c) = getCompactionEvents s (cRunId c) @ [c]
        \<and> getEvents s' (runQuery (cRunId c))
            = getEvents s (runQuery (cRunId c)) @ [(compactionMirror c)\<lparr>evTs := now\<rparr>]
        \<and> (\<forall>r'. \<exists>new. getEvents s' (runQuery r') = getEvents s (runQuery r') @ new))"
proof (intro conjI impI allI)
  fix pre e post
  assume "getCompactionEvents s r \<noteq> []"
    and "getEvents s (runQuery r) = pre @ e # post
          \<and> compositeId e = toEventId (span (last (getCompactionEvents s r)))
          \<and> (\<forall>x \<in> set pre. compositeId x \<noteq> toEventId (span (last (getCompactionEvents s r))))"
  then show "getUncompactedEvents s r = post"
    using getUncompactedEvents_match by blast
next
  assume "\<forall>x \<in> set (getEvents s (runQuery r)).
              compositeId x \<noteq> toEventId (span (last (getCompactionEvents s r)))"
  then show "getUncompactedEvents s r = getEvents s (runQuery r)"
    by (rule getUncompactedEvents_no_match)
next
  show "getEvents s (runQuery r) = eventsFile s r"
    by (rule getEvents_runQuery)
next
  assume a: "appendCompactionEvent datetime now s c = Inr s'"
  show "getCompactionEvents s' (cRunId c) = getCompactionEvents s (cRunId c) @ [c]"
    using appendCompactionEvent_Inr(1)[OF a] by (simp add: getCompactionEvents_def)
  show "getEvents s' (runQuery (cRunId c))
            = getEvents s (runQuery (cRunId c)) @ [(compactionMirror c)\<lparr>evTs := now\<rparr>]"
    using appendCompactionEvent_Inr(2)[OF a] by (simp add: getEvents_runQuery)
  fix r'
  show "\<exists>new. getEvents s' (runQuery r') = getEvents s (runQuery r') @ new"
    using appendCompactionEvent_Inr(2)[OF a] by (simp add: getEvents_runQuery)
qed

theorem getUncompactedEvents_after_span_witness:
  "\<exists>s'. appendCompactionEvent (\<lambda>t. t \<noteq> []) ''t4'' exampleSession exampleCompaction = Inr s'
      \<and> getCompactionEvents s' ''run-0001'' = [exampleCompaction]
      \<and> getEvents s' (runQuery ''run-0001'')
          = [exampleEvent ''s1'' ''t1'', exampleEvent ''s2'' ''t2'', exampleEvent ''s3'' ''t3'',
             (compactionMirror exampleCompaction)\<lparr>evTs := ''t4''\<rparr>]
      \<and> getUncompactedEvents s' ''run-0001''
          = [exampleEvent ''s3'' ''t3'', (compactionMirror exampleCompaction)\<lparr>evTs := ''t4''\<rparr>]"
proof -
  obtain s' where s': "appendCompactionEvent (\<lambda>t. t \<noteq> []) ''t4'' exampleSession exampleCompaction = Inr s'"
    by (simp add: appendCompactionEvent_def appendEvent_def CompactionEventSchema_def
          exampleCompaction_def compactionMirror_def Let_def)
  have run: "cRunId exampleCompaction = ''run-0001''"
    by (simp add: exampleCompaction_def)
  from getUncompactedEvents_after_span[of exampleSession "''run-0001''" "\<lambda>t. t \<noteq> []" "''t4''"
         exampleCompaction s'] s'
  have c: "getCompactionEvents s' ''run-0001'' = [exampleCompaction]"
    and e: "getEvents s' (runQuery ''run-0001'')
          = [exampleEvent ''s1'' ''t1'', exampleEvent ''s2'' ''t2'', exampleEvent ''s3'' ''t3'',
             (compactionMirror exampleCompaction)\<lparr>evTs := ''t4''\<rparr>]"
    by (simp_all add: run getCompactionEvents_def exampleSession_def)
  have e': "getEvents s' (runQuery ''run-0001'')
          = [exampleEvent ''s1'' ''t1''] @ exampleEvent ''s2'' ''t2''
              # [exampleEvent ''s3'' ''t3'', (compactionMirror exampleCompaction)\<lparr>evTs := ''t4''\<rparr>]"
    using e by simp
  have k: "compositeId (exampleEvent ''s2'' ''t2'') = toEventId (span (last (getCompactionEvents s' ''run-0001'')))"
    "\<forall>x \<in> set [exampleEvent ''s1'' ''t1''].
        compositeId x \<noteq> toEventId (span (last (getCompactionEvents s' ''run-0001'')))"
    by (simp_all add: c compositeId_def exampleEvent_def exampleCompaction_def interpolate_def)
  have "getCompactionEvents s' ''run-0001'' \<noteq> []" by (simp add: c)
  with getUncompactedEvents_after_span[of s' "''run-0001''" "\<lambda>t. t \<noteq> []" "''t4''" exampleCompaction s']
    e' k
  have "getUncompactedEvents s' ''run-0001''
          = [exampleEvent ''s3'' ''t3'', (compactionMirror exampleCompaction)\<lparr>evTs := ''t4''\<rparr>]"
    by blast
  with s' c e show ?thesis by blast
qed

section \<open>Cycle detection: the search returns, and what its answers mean\<close>

lemma dfs_total_aux:
  fixes U :: "string set"
  assumes fin: "finite U"
  shows "\<forall>u node. nodeMap u = Some node \<longrightarrow> set (deps node) \<subseteq> U \<Longrightarrow>
           v \<in> U \<Longrightarrow> v \<notin> visited st \<Longrightarrow> card (U - visited st) \<le> fuel
           \<Longrightarrow> \<exists>b st'. dfs fuel nodeMap v st = Some (b, st') \<and> visited st \<subseteq> visited st'"
    and "\<forall>u node. nodeMap u = Some node \<longrightarrow> set (deps node) \<subseteq> U \<Longrightarrow>
           set ds \<subseteq> U \<Longrightarrow> card (U - visited st) \<le> fuel
           \<Longrightarrow> \<exists>b st'. dfsDeps fuel nodeMap ds st = Some (b, st') \<and> visited st \<subseteq> visited st'"
proof (induction fuel nodeMap v st and fuel nodeMap ds st rule: dfs_dfsDeps.induct)
  case (1 nodeMap nodeId st)
  then have "nodeId \<in> U - visited st" by simp
  with fin have "0 < card (U - visited st)"
    by (metis card_gt_0_iff empty_iff finite_Diff)
  with 1 show ?case by simp
next
  case (2 fuel nodeMap nodeId st)
  let ?st1 = "st\<lparr>visited := insert nodeId (visited st),
                   recursionStack := insert nodeId (recursionStack st),
                   path := path st @ [nodeId]\<rparr>"
  have "U - visited ?st1 = (U - visited st) - {nodeId}" by auto
  moreover have "nodeId \<in> U - visited st" using 2 by simp
  ultimately have c: "card (U - visited ?st1) \<le> fuel"
    using 2(5) fin by (simp add: card_Diff_singleton)
  note closed = 2(2)
  show ?case
  proof (cases "nodeMap nodeId")
    case None
    then show ?thesis by (auto simp: Let_def)
  next
    case (Some node)
    have "set (deps node) \<subseteq> U" using closed Some by blast
    from "2.IH"[OF refl Some closed this c]
    obtain b st2 where r: "dfsDeps fuel nodeMap (deps node) ?st1 = Some (b, st2)"
      and m: "visited ?st1 \<subseteq> visited st2" by blast
    show ?thesis
      using Some r m by (cases b) (auto simp: Let_def)
  qed
next
  case (3 fuel nodeMap st)
  then show ?case by auto
next
  case (4 fuel nodeMap dep rest st)
  show ?case
  proof (cases "dep \<notin> visited st")
    case True
    from 4(5) have "dep \<in> U" by simp
    from "4.IH"(1)[OF True 4(4) this True 4(6)]
    obtain b st' where r: "dfs fuel nodeMap dep st = Some (b, st')"
      and m: "visited st \<subseteq> visited st'" by blast
    show ?thesis
    proof (cases b)
      case True
      with r m \<open>dep \<notin> visited st\<close> show ?thesis by auto
    next
      case False
      have "U - visited st' \<subseteq> U - visited st" using m by auto
      then have "card (U - visited st') \<le> card (U - visited st)"
        using fin by (simp add: card_mono)
      then have c: "card (U - visited st') \<le> fuel" using 4(6) by simp
      from 4(5) have "set rest \<subseteq> U" by simp
      from r False have r': "dfs fuel nodeMap dep st = Some (False, st')" by simp
      from "4.IH"(2)[OF True r' refl refl 4(4) \<open>set rest \<subseteq> U\<close> c]
      obtain b2 st2 where "dfsDeps fuel nodeMap rest st' = Some (b2, st2)"
        and "visited st' \<subseteq> visited st2" by blast
      with r m False \<open>dep \<notin> visited st\<close> show ?thesis by auto
    qed
  next
    case False
    show ?thesis
    proof (cases "dep \<in> recursionStack st")
      case True
      with False show ?thesis by auto
    next
      case nst: False
      from 4(5) have "set rest \<subseteq> U" by simp
      from "4.IH"(3)[OF False nst 4(4) this 4(6)] False nst
      show ?thesis by auto
    qed
  qed
qed

lemma cycle_through_succ: "(v, v) \<in> E\<^sup>+ \<Longrightarrow> \<exists>w. (v, w) \<in> E \<and> (w, w) \<in> E\<^sup>+"
proof -
  assume "(v, v) \<in> E\<^sup>+"
  then obtain w where "(v, w) \<in> E" "(w, v) \<in> E\<^sup>*" by (blast dest: tranclD)
  then have "(w, w) \<in> E\<^sup>+" by (rule_tac rtrancl_into_trancl1)
  with \<open>(v, w) \<in> E\<close> show ?thesis by blast
qed

lemma mapEdges_iff: "(u, d) \<in> mapEdges m \<longleftrightarrow> (\<exists>node. m u = Some node \<and> d \<in> set (deps node))"
  by (simp add: mapEdges_def)

lemma finish_node_inv:
  assumes inv2: "dfsInv m st2"
    and v: "v \<in> visited st2"
    and succ: "\<forall>w. (v, w) \<in> mapEdges m \<longrightarrow> w \<in> visited st2 - recursionStack st2"
  shows "dfsInv m (st2\<lparr>path := p, recursionStack := recursionStack st2 - {v}\<rparr>)"
proof -
  have "(v, v) \<notin> (mapEdges m)\<^sup>+"
  proof
    assume "(v, v) \<in> (mapEdges m)\<^sup>+"
    then obtain w where "(v, w) \<in> mapEdges m" "(w, w) \<in> (mapEdges m)\<^sup>+"
      by (blast dest: cycle_through_succ)
    with succ inv2 show False by (auto simp: dfsInv_def)
  qed
  with inv2 show ?thesis by (auto simp: dfsInv_def)
qed

lemma dfs_False_inv:
  shows "dfs fuel nodeMap v st = Some (False, st') \<Longrightarrow> dfsInv nodeMap st \<Longrightarrow> v \<notin> visited st
           \<Longrightarrow> dfsInv nodeMap st' \<and> insert v (visited st) \<subseteq> visited st'
               \<and> recursionStack st' = recursionStack st"
    and "dfsDeps fuel nodeMap ds st = Some (False, st') \<Longrightarrow> dfsInv nodeMap st
           \<Longrightarrow> dfsInv nodeMap st' \<and> visited st \<subseteq> visited st'
               \<and> recursionStack st' = recursionStack st
               \<and> set ds \<subseteq> visited st' - recursionStack st'"
proof (induction fuel nodeMap v st and fuel nodeMap ds st arbitrary: st' and st'
        rule: dfs_dfsDeps.induct)
  case (1 nodeMap nodeId st)
  then show ?case by simp
next
  case (2 fuel nodeMap nodeId st)
  let ?st1 = "st\<lparr>visited := insert nodeId (visited st),
                   recursionStack := insert nodeId (recursionStack st),
                   path := path st @ [nodeId]\<rparr>"
  from 2(3,4) have notstack: "nodeId \<notin> recursionStack st" by (auto simp: dfsInv_def)
  from 2(3) have inv1: "dfsInv nodeMap ?st1" by (auto simp: dfsInv_def)
  show ?case
  proof (cases "nodeMap nodeId")
    case None
    with 2(2) have st': "st' = ?st1\<lparr>path := butlast (path ?st1),
                                    recursionStack := recursionStack ?st1 - {nodeId}\<rparr>"
      by (simp add: Let_def)
    have "dfsInv nodeMap (?st1\<lparr>path := butlast (path ?st1),
                               recursionStack := recursionStack ?st1 - {nodeId}\<rparr>)"
      using inv1 None by (intro finish_node_inv) (auto simp: mapEdges_iff)
    with st' notstack show ?thesis by auto
  next
    case (Some node)
    with 2(2) obtain st2 where r: "dfsDeps fuel nodeMap (deps node) ?st1 = Some (False, st2)"
      and st': "st' = st2\<lparr>path := butlast (path st2),
                           recursionStack := recursionStack st2 - {nodeId}\<rparr>"
      by (auto simp: Let_def split: option.splits bool.splits prod.splits)
    from "2.IH"[OF refl Some r inv1]
    have inv2: "dfsInv nodeMap st2" and vis: "visited ?st1 \<subseteq> visited st2"
      and stk: "recursionStack st2 = recursionStack ?st1"
      and black: "set (deps node) \<subseteq> visited st2 - recursionStack st2" by auto
    have "dfsInv nodeMap (st2\<lparr>path := butlast (path st2),
                              recursionStack := recursionStack st2 - {nodeId}\<rparr>)"
      using inv2 vis black Some by (intro finish_node_inv) (auto simp: mapEdges_iff)
    with st' stk vis notstack show ?thesis by auto
  qed
next
  case (3 fuel nodeMap st)
  then show ?case by simp
next
  case (4 fuel nodeMap dep rest st)
  show ?case
  proof (cases "dep \<notin> visited st")
    case True
    with 4(4) obtain st1 where r: "dfs fuel nodeMap dep st = Some (False, st1)"
      and r2: "dfsDeps fuel nodeMap rest st1 = Some (False, st')"
      by (auto split: option.splits bool.splits prod.splits)
    from "4.IH"(1)[OF True r 4(5) True]
    have inv1: "dfsInv nodeMap st1" and vis1: "insert dep (visited st) \<subseteq> visited st1"
      and stk1: "recursionStack st1 = recursionStack st" by auto
    from "4.IH"(2)[OF True r refl refl r2 inv1]
    have inv2: "dfsInv nodeMap st'" and vis2: "visited st1 \<subseteq> visited st'"
      and stk2: "recursionStack st' = recursionStack st1"
      and black: "set rest \<subseteq> visited st' - recursionStack st'" by auto
    from 4(5) True have "dep \<notin> recursionStack st" by (auto simp: dfsInv_def)
    with inv2 vis1 vis2 stk1 stk2 black show ?thesis by auto
  next
    case False
    show ?thesis
    proof (cases "dep \<in> recursionStack st")
      case True
      with False 4(4) show ?thesis by simp
    next
      case nst: False
      with False 4(4) have r2: "dfsDeps fuel nodeMap rest st = Some (False, st')" by simp
      from "4.IH"(3)[OF False nst r2 4(5)] False nst
      show ?thesis by auto
    qed
  qed
qed

lemma dfs_path:
  shows "dfs fuel nodeMap v st = Some (b, st') \<Longrightarrow> recursionStack st \<subseteq> set (path st) \<Longrightarrow>
           (if b then \<exists>q c. path st' = path st @ v # q @ [c] \<and> c \<in> set (path st @ v # q)
                        \<and> successively (\<lambda>x y. (x, y) \<in> mapEdges nodeMap) (v # q @ [c])
            else path st' = path st \<and> recursionStack st' \<subseteq> set (path st'))"
    and "dfsDeps fuel nodeMap ds st = Some (b, st') \<Longrightarrow> recursionStack st \<subseteq> set (path st) \<Longrightarrow>
           path st \<noteq> [] \<Longrightarrow> \<forall>d \<in> set ds. (last (path st), d) \<in> mapEdges nodeMap \<Longrightarrow>
           (if b then \<exists>q c. path st' = path st @ q @ [c] \<and> c \<in> set (path st @ q)
                        \<and> successively (\<lambda>x y. (x, y) \<in> mapEdges nodeMap) (last (path st) # q @ [c])
            else path st' = path st \<and> recursionStack st' \<subseteq> set (path st'))"
proof (induction fuel nodeMap v st and fuel nodeMap ds st arbitrary: b st' and b st'
        rule: dfs_dfsDeps.induct)
  case (1 nodeMap nodeId st)
  then show ?case by simp
next
  case (2 fuel nodeMap nodeId st)
  let ?st1 = "st\<lparr>visited := insert nodeId (visited st),
                   recursionStack := insert nodeId (recursionStack st),
                   path := path st @ [nodeId]\<rparr>"
  from 2(3) have stk1: "recursionStack ?st1 \<subseteq> set (path ?st1)" by auto
  show ?case
  proof (cases "nodeMap nodeId")
    case None
    with 2(2) have "\<not> b" and "st' = ?st1\<lparr>path := butlast (path ?st1),
                                    recursionStack := recursionStack ?st1 - {nodeId}\<rparr>"
      by (auto simp: Let_def)
    with 2(3) show ?thesis by auto
  next
    case (Some node)
    with 2(2) obtain b2 st2 where r: "dfsDeps fuel nodeMap (deps node) ?st1 = Some (b2, st2)"
      by (auto simp: Let_def split: option.splits)
    have edges: "\<forall>d \<in> set (deps node). (last (path ?st1), d) \<in> mapEdges nodeMap"
      using Some by (simp add: mapEdges_iff)
    have ne: "path ?st1 \<noteq> []" by simp
    note ih = "2.IH"[OF refl Some r stk1 ne edges]
    show ?thesis
    proof (cases b2)
      case True
      with r Some 2(2) have b: "b" and st': "st' = st2" by (auto simp: Let_def)
      from ih True obtain q c where "path st2 = path ?st1 @ q @ [c]" "c \<in> set (path ?st1 @ q)"
        "successively (\<lambda>x y. (x, y) \<in> mapEdges nodeMap) (last (path ?st1) # q @ [c])"
        by auto
      then have "path st' = path st @ nodeId # q @ [c] \<and> c \<in> set (path st @ nodeId # q)
                  \<and> successively (\<lambda>x y. (x, y) \<in> mapEdges nodeMap) (nodeId # q @ [c])"
        using st' by auto
      with b show ?thesis by auto
    next
      case False
      with r Some 2(2) have b: "\<not> b"
        and st': "st' = st2\<lparr>path := butlast (path st2),
                           recursionStack := recursionStack st2 - {nodeId}\<rparr>"
        by (auto simp: Let_def)
      from ih False have "path st2 = path ?st1" "recursionStack st2 \<subseteq> set (path st2)" by auto
      then have "path st' = path st" "recursionStack st' \<subseteq> set (path st')"
        using st' by auto
      with b show ?thesis by simp
    qed
  qed
next
  case (3 fuel nodeMap st)
  then show ?case by auto
next
  case (4 fuel nodeMap dep rest st)
  from 4(7) have e: "(last (path st), dep) \<in> mapEdges nodeMap"
    and er: "\<forall>d \<in> set rest. (last (path st), d) \<in> mapEdges nodeMap" by simp_all
  show ?case
  proof (cases "dep \<notin> visited st")
    case True
    with 4(4) obtain b1 st1 where r: "dfs fuel nodeMap dep st = Some (b1, st1)"
      by (auto split: option.splits)
    note ih1 = "4.IH"(1)[OF True r 4(5)]
    show ?thesis
    proof (cases b1)
      case b1: True
      with r True 4(4) have b: "b" and st': "st' = st1" by auto
      from ih1 b1 obtain q c where q: "path st1 = path st @ dep # q @ [c]"
        "c \<in> set (path st @ dep # q)"
        "successively (\<lambda>x y. (x, y) \<in> mapEdges nodeMap) (dep # q @ [c])" by auto
      have "path st' = path st @ (dep # q) @ [c] \<and> c \<in> set (path st @ (dep # q))
             \<and> successively (\<lambda>x y. (x, y) \<in> mapEdges nodeMap) (last (path st) # (dep # q) @ [c])"
        using q e st' by simp
      then have "\<exists>q c. path st' = path st @ q @ [c] \<and> c \<in> set (path st @ q)
             \<and> successively (\<lambda>x y. (x, y) \<in> mapEdges nodeMap) (last (path st) # q @ [c])"
        by blast
      with b show ?thesis by simp
    next
      case b1: False
      with r True 4(4) have r2: "dfsDeps fuel nodeMap rest st1 = Some (b, st')" by auto
      from r b1 have r1: "dfs fuel nodeMap dep st = Some (False, st1)" by simp
      from ih1 b1 have p1: "path st1 = path st" and s1: "recursionStack st1 \<subseteq> set (path st1)"
        by auto
      have ne1: "path st1 \<noteq> []" using p1 4(6) by simp
      have er1: "\<forall>d \<in> set rest. (last (path st1), d) \<in> mapEdges nodeMap" using p1 er by simp
      from "4.IH"(2)[OF True r1 refl refl r2 s1 ne1 er1]
      show ?thesis unfolding p1 .
    qed
  next
    case False
    show ?thesis
    proof (cases "dep \<in> recursionStack st")
      case True
      with False 4(4) have b: "b" and st': "st' = st\<lparr>path := path st @ [dep]\<rparr>" by auto
      have "path st' = path st @ [] @ [dep] \<and> dep \<in> set (path st @ [])
             \<and> successively (\<lambda>x y. (x, y) \<in> mapEdges nodeMap) (last (path st) # [] @ [dep])"
        using st' True 4(5) e by auto
      then have "\<exists>q c. path st' = path st @ q @ [c] \<and> c \<in> set (path st @ q)
             \<and> successively (\<lambda>x y. (x, y) \<in> mapEdges nodeMap) (last (path st) # q @ [c])"
        by blast
      with b show ?thesis by simp
    next
      case nst: False
      with False 4(4) have r2: "dfsDeps fuel nodeMap rest st = Some (b, st')" by simp
      from "4.IH"(3)[OF False nst r2 4(5) 4(6) er]
      show ?thesis by simp
    qed
  qed
qed

lemma dfsRoots_total:
  fixes U :: "string set"
  assumes fin: "finite U"
    and closed: "\<forall>u node. nodeMap u = Some node \<longrightarrow> set (deps node) \<subseteq> U"
  shows "nid ` set ns \<subseteq> U \<Longrightarrow> card (U - visited st) \<le> fuel
           \<Longrightarrow> \<exists>b st'. dfsRoots fuel nodeMap ns st = Some (b, st') \<and> visited st \<subseteq> visited st'"
proof (induction ns arbitrary: st)
  case Nil
  then show ?case by auto
next
  case (Cons node rest)
  show ?case
  proof (cases "nid node \<notin> visited st")
    case True
    from Cons.prems have "nid node \<in> U" by simp
    from dfs_total_aux(1)[OF fin closed this True Cons.prems(2)]
    obtain b st1 where r: "dfs fuel nodeMap (nid node) st = Some (b, st1)"
      and m: "visited st \<subseteq> visited st1" by blast
    show ?thesis
    proof (cases b)
      case True
      with r m \<open>nid node \<notin> visited st\<close> show ?thesis by auto
    next
      case False
      have "U - visited st1 \<subseteq> U - visited st" using m by auto
      then have "card (U - visited st1) \<le> card (U - visited st)"
        using fin by (simp add: card_mono)
      with Cons.prems have c: "card (U - visited st1) \<le> fuel" by simp
      from Cons.prems have "nid ` set rest \<subseteq> U" by simp
      from Cons.IH[OF this c] obtain b2 st2
        where "dfsRoots fuel nodeMap rest st1 = Some (b2, st2)" "visited st1 \<subseteq> visited st2"
        by blast
      with r m False \<open>nid node \<notin> visited st\<close> show ?thesis by auto
    qed
  next
    case False
    from Cons.prems have "nid ` set rest \<subseteq> U" by simp
    from Cons.IH[OF this Cons.prems(2)] False show ?thesis by auto
  qed
qed

lemma lassoI:
  assumes "p = v # q @ [c]" and "c \<in> set (v # q)"
    and "successively (\<lambda>x y. (x, y) \<in> E) (v # q @ [c])"
  shows "lasso E p"
proof -
  from split_list[OF assms(2)] obtain lead loop where "v # q = lead @ c # loop"
    by blast
  then have p: "p = lead @ c # loop @ [c]" using assms(1)
    by (metis append_Cons append_assoc)
  have "successively (\<lambda>x y. (x, y) \<in> E) p" using assms(1,3) by simp
  with p show ?thesis unfolding lasso_def by blast
qed

lemma dfsRoots_spec:
  "dfsRoots fuel nodeMap ns st = Some (b, st') \<Longrightarrow> dfsInv nodeMap st
     \<Longrightarrow> recursionStack st = {} \<Longrightarrow> path st = [] \<Longrightarrow>
     (if b then lasso (mapEdges nodeMap) (path st')
      else dfsInv nodeMap st' \<and> recursionStack st' = {} \<and> path st' = []
           \<and> visited st \<union> nid ` set ns \<subseteq> visited st')"
proof (induction ns arbitrary: st)
  case Nil
  then show ?case by auto
next
  case (Cons node rest)
  show ?case
  proof (cases "nid node \<notin> visited st")
    case True
    with Cons.prems(1) obtain b1 st1 where r: "dfs fuel nodeMap (nid node) st = Some (b1, st1)"
      by (auto split: option.splits)
    have stk: "recursionStack st \<subseteq> set (path st)" using Cons.prems(3) by simp
    note p = dfs_path(1)[OF r stk]
    show ?thesis
    proof (cases b1)
      case b1: True
      with r True Cons.prems(1) have b: "b" and st': "st' = st1" by auto
      from p b1 Cons.prems(4) obtain q c where "path st1 = nid node # q @ [c]"
        "c \<in> set (nid node # q)"
        "successively (\<lambda>x y. (x, y) \<in> mapEdges nodeMap) (nid node # q @ [c])" by auto
      then have "lasso (mapEdges nodeMap) (path st1)" by (rule lassoI)
      with b st' show ?thesis by simp
    next
      case b1: False
      with r True Cons.prems(1) have r2: "dfsRoots fuel nodeMap rest st1 = Some (b, st')" by auto
      from r b1 have r1: "dfs fuel nodeMap (nid node) st = Some (False, st1)" by simp
      from dfs_False_inv(1)[OF r1 Cons.prems(2) True]
      have inv1: "dfsInv nodeMap st1" and vis1: "insert (nid node) (visited st) \<subseteq> visited st1"
        and stk1: "recursionStack st1 = {}" using Cons.prems(3) by auto
      from p b1 Cons.prems(4) have p1: "path st1 = []" by simp
      from Cons.IH[OF r2 inv1 stk1 p1] vis1 show ?thesis by (cases b) auto
    qed
  next
    case False
    with Cons.prems(1) have r2: "dfsRoots fuel nodeMap rest st = Some (b, st')" by simp
    from Cons.IH[OF r2 Cons.prems(2,3,4)] False show ?thesis by (cases b) auto
  qed
qed

lemma nodeMapOf_SomeD: "nodeMapOf ns u = Some node \<Longrightarrow> node \<in> set ns \<and> nid node = u"
  by (auto simp: nodeMapOf_def dest!: map_of_SomeD)

lemma nodeMapOf_distinct:
  "distinct (map nid ns) \<Longrightarrow> n \<in> set ns \<Longrightarrow> nodeMapOf ns (nid n) = Some n"
  unfolding nodeMapOf_def
  by (rule map_of_is_SomeI) (auto simp: rev_map[symmetric] comp_def)

lemma mapEdges_subset: "mapEdges (nodeMapOf (nodes g)) \<subseteq> depEdges g"
  by (auto simp: mapEdges_def depEdges_def dest: nodeMapOf_SomeD)

lemma mapEdges_distinct:
  "distinct (map nid (nodes g)) \<Longrightarrow> mapEdges (nodeMapOf (nodes g)) = depEdges g"
  using mapEdges_subset[of g]
  by (auto simp: mapEdges_def depEdges_def dest: nodeMapOf_distinct)

lemma initialDfs_inv: "dfsInv nodeMap initialDfs"
  by (simp add: dfsInv_def initialDfs_def)

lemma dfsRoots_initial_total:
  "\<exists>b st'. dfsRoots (Suc (length (remdups (allIds g)))) (nodeMapOf (nodes g)) (nodes g) initialDfs
             = Some (b, st')"
proof -
  let ?U = "set (allIds g)"
  have fin: "finite ?U" by simp
  have closed: "\<forall>u node. nodeMapOf (nodes g) u = Some node \<longrightarrow> set (deps node) \<subseteq> ?U"
    by (auto simp: allIds_def dest: nodeMapOf_SomeD)
  have ids: "nid ` set (nodes g) \<subseteq> ?U" by (auto simp: allIds_def)
  have "card (?U - visited initialDfs) \<le> Suc (length (remdups (allIds g)))"
    by (simp add: initialDfs_def length_remdups_card_conv)
  from dfsRoots_total[OF fin closed ids this] show ?thesis by blast
qed

lemma detectCycles_total: "\<exists>r. detectCycles g = Some r"
  using dfsRoots_initial_total[of g]
  by (auto simp: detectCycles_def split: bool.splits)

lemma detectCycles_False:
  assumes "detectCycles g = Some r" and "\<not> hasCycle r"
  shows "(u, u) \<notin> (mapEdges (nodeMapOf (nodes g)))\<^sup>+"
proof
  let ?m = "nodeMapOf (nodes g)"
  assume cyc: "(u, u) \<in> (mapEdges ?m)\<^sup>+"
  from assms obtain st' where
    r: "dfsRoots (Suc (length (remdups (allIds g)))) ?m (nodes g) initialDfs = Some (False, st')"
    by (auto simp: detectCycles_def split: option.splits bool.splits prod.splits)
  from dfsRoots_spec[OF r initialDfs_inv]
  have inv: "dfsInv ?m st'" and stk: "recursionStack st' = {}"
    and vis: "nid ` set (nodes g) \<subseteq> visited st'"
    by (auto simp: initialDfs_def)
  from cyc obtain w where "(u, w) \<in> mapEdges ?m" by (blast dest: tranclD)
  then have "u \<in> nid ` set (nodes g)"
    by (auto simp: mapEdges_iff dest: nodeMapOf_SomeD)
  with vis stk have "u \<in> visited st' - recursionStack st'" by auto
  with inv cyc show False by (auto simp: dfsInv_def)
qed

lemma detectCycles_True:
  assumes "detectCycles g = Some r" and "hasCycle r"
  shows "\<exists>p. cycle r = Some p \<and> lasso (mapEdges (nodeMapOf (nodes g))) p"
proof -
  let ?m = "nodeMapOf (nodes g)"
  from assms obtain st' where
    r: "dfsRoots (Suc (length (remdups (allIds g)))) ?m (nodes g) initialDfs = Some (True, st')"
    and c: "cycle r = Some (path st')"
    by (auto simp: detectCycles_def split: option.splits bool.splits prod.splits)
  from dfsRoots_spec[OF r initialDfs_inv] have "lasso (mapEdges ?m) (path st')"
    by (simp add: initialDfs_def)
  with c show ?thesis by simp
qed

lemma danglingErrors_Nil_iff:
  "danglingErrors g = [] \<longleftrightarrow> (\<forall>n \<in> set (nodes g). set (deps n) \<subseteq> nid ` set (nodes g))"
  by (auto simp: danglingErrors_def)

lemma no_duplicates_iff:
  "length (remdups (map nid ns)) = length ns \<longleftrightarrow> distinct (map nid ns)"
  by (metis distinct_remdups length_map length_remdups_eq remdups_id_iff_distinct)

lemma validate_total: "\<exists>v. validate g = Some v"
  using detectCycles_total[of g] by (auto simp: validate_def Let_def)

lemma validate_valid_iff:
  assumes "validate g = Some v"
  shows "valid v \<longleftrightarrow> distinct (map nid (nodes g))
               \<and> (\<forall>n \<in> set (nodes g). set (deps n) \<subseteq> nid ` set (nodes g))
               \<and> (\<exists>r. detectCycles g = Some r \<and> \<not> hasCycle r)"
proof -
  obtain r where r: "detectCycles g = Some r" using detectCycles_total by blast
  with assms have "valid v \<longleftrightarrow>
      length (remdups (map nid (nodes g))) = length (nodes g)
      \<and> danglingErrors g = [] \<and> \<not> hasCycle r"
    by (auto simp: validate_def Let_def split: if_splits)
  then show ?thesis
    unfolding no_duplicates_iff danglingErrors_Nil_iff using r by simp
qed

lemma validate_valid_acyclic:
  assumes "validate g = Some v" and "valid v"
  shows "distinct (map nid (nodes g))"
    and "\<forall>n \<in> set (nodes g). set (deps n) \<subseteq> nid ` set (nodes g)"
    and "acyclic (depEdges g)"
proof -
  from validate_valid_iff[OF assms(1)] assms(2)
  obtain r where d: "distinct (map nid (nodes g))"
    and e: "\<forall>n \<in> set (nodes g). set (deps n) \<subseteq> nid ` set (nodes g)"
    and r: "detectCycles g = Some r" "\<not> hasCycle r" by blast
  show "distinct (map nid (nodes g))" by (rule d)
  show "\<forall>n \<in> set (nodes g). set (deps n) \<subseteq> nid ` set (nodes g)" by (rule e)
  show "acyclic (depEdges g)"
    using detectCycles_False[OF r] mapEdges_distinct[OF d] by (simp add: acyclic_def)
qed

lemma cycle_invalid:
  assumes "hasDependencyCycle g"
  shows "\<exists>v. validate g = Some v \<and> \<not> valid v"
proof -
  obtain v where v: "validate g = Some v" using validate_total by blast
  have "\<not> valid v"
  proof
    assume "valid v"
    from validate_valid_acyclic(3)[OF v this] assms show False
      by (auto simp: acyclic_def hasDependencyCycle_def)
  qed
  with v show ?thesis by blast
qed

section \<open>Driving a validated graph by its ready nodes\<close>

declare iterateReady.simps [simp del]

lemma finite_depEdges: "finite (depEdges g)"
proof -
  have "depEdges g = (\<Union>n \<in> set (nodes g). {nid n} \<times> set (deps n))"
    by (auto simp: depEdges_def)
  then show ?thesis by simp
qed

lemma ready_progress:
  assumes acyc: "acyclic (depEdges g)"
    and exist: "\<forall>n \<in> set (nodes g). set (deps n) \<subseteq> nid ` set (nodes g)"
    and pending: "n \<in> set (nodes g)" "nid n \<notin> C"
  shows "getReadyNodes g C \<noteq> []"
proof -
  let ?X = "{u \<in> nid ` set (nodes g). u \<notin> C}"
  have wf: "wf ((depEdges g)\<inverse>)"
    using finite_depEdges acyc by (rule finite_acyclic_wf_converse)
  have "nid n \<in> ?X" using pending by simp
  from wfE_min[OF wf this] obtain z where z: "z \<in> ?X"
    and min: "\<And>y. (y, z) \<in> (depEdges g)\<inverse> \<Longrightarrow> y \<notin> ?X" by blast
  from z obtain m where m: "m \<in> set (nodes g)" "nid m = z" "nid m \<notin> C" by auto
  have "\<forall>d \<in> set (deps m). d \<in> C"
  proof
    fix d assume d: "d \<in> set (deps m)"
    with m have "(z, d) \<in> depEdges g" by (auto simp: depEdges_def)
    then have "d \<notin> ?X" using min by blast
    moreover have "d \<in> nid ` set (nodes g)" using exist m(1) d by blast
    ultimately show "d \<in> C" by simp
  qed
  with m have "m \<in> set (getReadyNodes g C)"
    by (simp add: getReadyNodes_def list_all_iff)
  then show ?thesis by auto
qed

lemma iterateReady_covers:
  "acyclic (depEdges g) \<Longrightarrow>
   \<forall>n \<in> set (nodes g). set (deps n) \<subseteq> nid ` set (nodes g) \<Longrightarrow>
   distinct (map nid (nodes g)) \<Longrightarrow>
     set (concat (iterateReady g C)) = {n \<in> set (nodes g). nid n \<notin> C}
     \<and> distinct (map nid (concat (iterateReady g C)))"
proof (induction g C rule: iterateReady.induct)
  case (1 g C)
  note acyc = 1(2) and exist = 1(3) and dist = 1(4)
  let ?ready = "getReadyNodes g C"
  show ?case
  proof (cases "?ready = []")
    case True
    have "{n \<in> set (nodes g). nid n \<notin> C} = {}"
    proof (rule ccontr)
      assume "{n \<in> set (nodes g). nid n \<notin> C} \<noteq> {}"
      then obtain n where "n \<in> set (nodes g)" "nid n \<notin> C" by blast
      from ready_progress[OF acyc exist this] True show False by simp
    qed
    with True show ?thesis
      by (subst iterateReady.simps, subst (2) iterateReady.simps) (simp add: Let_def)
  next
    case False
    let ?C' = "C \<union> set (map nid ?ready)"
    from "1.IH"[OF refl False acyc exist dist]
    have ih: "set (concat (iterateReady g ?C')) = {n \<in> set (nodes g). nid n \<notin> ?C'}"
      "distinct (map nid (concat (iterateReady g ?C')))" by auto
    have unf: "iterateReady g C = ?ready # iterateReady g ?C'"
      using False by (subst iterateReady.simps) (simp add: Let_def)
    have rdy: "set ?ready \<subseteq> {n \<in> set (nodes g). nid n \<notin> C}"
      by (auto simp: getReadyNodes_def)
    have dr: "distinct (map nid ?ready)"
      unfolding getReadyNodes_def using dist by (rule distinct_map_filter)
    have inj: "inj_on nid (set (nodes g))" using dist by (simp add: distinct_map)
    have same: "x = y" if "x \<in> set (nodes g)" "y \<in> set ?ready" "nid x = nid y" for x y
      using that rdy inj by (auto dest: inj_onD)
    have e: "set (concat (iterateReady g C))
               = set ?ready \<union> {n \<in> set (nodes g). nid n \<notin> ?C'}"
      unfolding unf using ih(1) by simp
    have "set ?ready \<union> {n \<in> set (nodes g). nid n \<notin> ?C'} = {n \<in> set (nodes g). nid n \<notin> C}"
    proof (intro set_eqI iffI)
      fix x assume "x \<in> set ?ready \<union> {n \<in> set (nodes g). nid n \<notin> ?C'}"
      then show "x \<in> {n \<in> set (nodes g). nid n \<notin> C}" using rdy by auto
    next
      fix x assume x: "x \<in> {n \<in> set (nodes g). nid n \<notin> C}"
      show "x \<in> set ?ready \<union> {n \<in> set (nodes g). nid n \<notin> ?C'}"
      proof (cases "x \<in> set ?ready")
        case True
        then show ?thesis by simp
      next
        case False
        have "nid x \<notin> set (map nid ?ready)"
        proof
          assume "nid x \<in> set (map nid ?ready)"
          then obtain y where "y \<in> set ?ready" "nid x = nid y" by auto
          with same[of x y] x False show False by simp
        qed
        with x show ?thesis by simp
      qed
    qed
    with e have "set (concat (iterateReady g C)) = {n \<in> set (nodes g). nid n \<notin> C}"
      by simp
    moreover have "distinct (map nid (concat (iterateReady g C)))"
    proof -
      have "nid ` set ?ready \<inter> nid ` set (concat (iterateReady g ?C')) = {}"
      proof (rule ccontr)
        assume "nid ` set ?ready \<inter> nid ` set (concat (iterateReady g ?C')) \<noteq> {}"
        then obtain i where i: "i \<in> nid ` set ?ready"
          "i \<in> nid ` set (concat (iterateReady g ?C'))" by auto
        from i(2) obtain y where y: "y \<in> set (concat (iterateReady g ?C'))" "i = nid y"
          by (rule imageE)
        from y(1) have "y \<in> {n \<in> set (nodes g). nid n \<notin> ?C'}"
          unfolding ih(1) .
        with i(1) y(2) show False by simp
      qed
      then have "set (map nid ?ready) \<inter> set (map nid (concat (iterateReady g ?C'))) = {}"
        by simp
      with ih(2) dr have "distinct (map nid ?ready @ map nid (concat (iterateReady g ?C')))"
        by (simp only: distinct_append) 
      then show ?thesis unfolding unf by simp
    qed
    ultimately show ?thesis by simp
  qed
qed

text \<open>
  C1. For every graph that \<open>validate\<close> accepts, the iteration that starts from the empty
  completed-set, asks \<open>getReadyNodes\<close> for the ready nodes and marks every returned node
  completed ends (the function \<open>iterateReady\<close> is total) and has returned every node of the
  graph exactly once: the returned nodes are the nodes of the graph, no id is returned
  twice, and as many nodes are returned as the graph has.
\<close>

theorem iterateReady_every_node_once:
  assumes "validate g = Some v" and "valid v"
  shows "set (concat (iterateReady g {})) = set (nodes g)
         \<and> distinct (map nid (concat (iterateReady g {})))
         \<and> distinct (concat (iterateReady g {}))
         \<and> length (concat (iterateReady g {})) = length (nodes g)"
proof -
  note v = validate_valid_acyclic[OF assms]
  from iterateReady_covers[OF v(3) v(2) v(1), of "{}"]
  have s: "set (concat (iterateReady g {})) = set (nodes g)"
    and d: "distinct (map nid (concat (iterateReady g {})))" by auto
  from d have d': "distinct (concat (iterateReady g {}))" by (simp add: distinct_map)
  from v(1) have dn: "distinct (nodes g)" by (simp add: distinct_map)
  have "length (concat (iterateReady g {})) = length (nodes g)"
    using s d' dn by (metis distinct_card)
  with s d d' show ?thesis by simp
qed

lemma diamond_valid: "validate diamondGraph = Some \<lparr>valid = True, errors = []\<rparr>"
  by (simp add: validate_def detectCycles_def diamondGraph_def mkGraph_def mkNode_def allIds_def
        nodeMapOf_def initialDfs_def danglingErrors_def Let_def)

lemma diamond_rounds:
  "iterateReady diamondGraph {} =
     [[mkNode ''top'' []], [mkNode ''left'' [''top''], mkNode ''right'' [''top'']],
      [mkNode ''bottom'' [''left'', ''right'']]]"
  apply (subst iterateReady.simps)
  apply (subst iterateReady.simps)
  apply (subst iterateReady.simps)
  apply (subst iterateReady.simps)
  apply (simp add: getReadyNodes_def diamondGraph_def mkGraph_def mkNode_def Let_def)
  done

theorem iterateReady_every_node_once_witness:
  "validate diamondGraph = Some \<lparr>valid = True, errors = []\<rparr>
   \<and> iterateReady diamondGraph {} =
       [[mkNode ''top'' []], [mkNode ''left'' [''top''], mkNode ''right'' [''top'']],
        [mkNode ''bottom'' [''left'', ''right'']]]
   \<and> set (concat (iterateReady diamondGraph {})) = set (nodes diamondGraph)
   \<and> distinct (map nid (concat (iterateReady diamondGraph {})))
   \<and> length (concat (iterateReady diamondGraph {})) = length (nodes diamondGraph)"
proof -
  have "valid \<lparr>valid = True, errors = []\<rparr>" by simp
  from iterateReady_every_node_once[OF diamond_valid this] diamond_valid diamond_rounds
  show ?thesis by simp
qed

section \<open>Cyclic graphs are rejected; the reported path\<close>

lemma lasso_mono:
  assumes "lasso E p" and sub: "E \<subseteq> E'"
  shows "lasso E' p"
proof -
  from assms(1) have s: "successively (\<lambda>a b. (a, b) \<in> E) p"
    and d: "\<exists>lead c loop. p = lead @ c # loop @ [c]" by (auto simp: lasso_def)
  from s have "successively (\<lambda>a b. (a, b) \<in> E') p"
    by (rule successively_mono) (use sub in blast)
  with d show ?thesis by (simp add: lasso_def)
qed

lemma depEdges_alt: "depEdges g = (\<Union>n \<in> set (nodes g). {nid n} \<times> set (deps n))"
  by (auto simp: depEdges_def)

lemma lasso_closedWalk:
  assumes "lasso E p"
  shows "\<exists>lead c loop. p = lead @ c # loop @ [c] \<and> closedWalk E (c # loop @ [c])"
proof -
  from assms obtain lead c loop where p: "p = lead @ c # loop @ [c]"
    and s: "successively (\<lambda>a b. (a, b) \<in> E) p" by (auto simp: lasso_def)
  from s have "successively (\<lambda>a b. (a, b) \<in> E) (c # loop @ [c])"
    unfolding p by (simp add: successively_append_iff)
  then have "closedWalk E (c # loop @ [c])" by (simp add: closedWalk_def)
  with p show ?thesis by blast
qed

text \<open>
  C4 (as the code has it). A graph with a dependency cycle is rejected by \<open>validate\<close>; if
  its node ids are unique, \<open>detectCycles\<close> reports a cycle. Whenever \<open>detectCycles\<close> reports
  a cycle, the reported path is the search path at the back edge: every consecutive pair
  on it is a dependency edge of the graph, and it ends on a node it has passed before, so
  that it splits into a lead-in and a closed walk \<open>c \<dots> c\<close>, which is an actual cycle. The
  lead-in (the way from the node where the search started) need not be on any cycle.
\<close>

theorem validate_rejects_cycles:
  "(hasDependencyCycle g \<longrightarrow> (\<exists>v. validate g = Some v \<and> \<not> valid v))
   \<and> (hasDependencyCycle g \<and> distinct (map nid (nodes g))
        \<longrightarrow> (\<exists>r. detectCycles g = Some r \<and> hasCycle r))
   \<and> (\<forall>r. detectCycles g = Some r \<and> hasCycle r \<longrightarrow>
         (\<exists>lead c loop. cycle r = Some (lead @ c # loop @ [c])
            \<and> successively (\<lambda>a b. (a, b) \<in> depEdges g) (lead @ c # loop @ [c])
            \<and> closedWalk (depEdges g) (c # loop @ [c])))"
proof (intro conjI impI allI)
  assume "hasDependencyCycle g"
  then show "\<exists>v. validate g = Some v \<and> \<not> valid v" by (rule cycle_invalid)
next
  assume a: "hasDependencyCycle g \<and> distinct (map nid (nodes g))"
  obtain r where r: "detectCycles g = Some r" using detectCycles_total by blast
  have "hasCycle r"
  proof (rule ccontr)
    assume "\<not> hasCycle r"
    from detectCycles_False[OF r this] mapEdges_distinct[of g] a
    show False by (auto simp: hasDependencyCycle_def)
  qed
  with r show "\<exists>r. detectCycles g = Some r \<and> hasCycle r" by blast
next
  fix r assume "detectCycles g = Some r \<and> hasCycle r"
  then obtain p where p: "cycle r = Some p" and l: "lasso (mapEdges (nodeMapOf (nodes g))) p"
    using detectCycles_True by blast
  from l have l': "lasso (depEdges g) p" using mapEdges_subset by (rule lasso_mono)
  from lasso_closedWalk[OF l'] obtain lead c loop where
    "p = lead @ c # loop @ [c]" "closedWalk (depEdges g) (c # loop @ [c])" by blast
  with p l' show "\<exists>lead c loop. cycle r = Some (lead @ c # loop @ [c])
            \<and> successively (\<lambda>a b. (a, b) \<in> depEdges g) (lead @ c # loop @ [c])
            \<and> closedWalk (depEdges g) (c # loop @ [c])"
    by (auto simp: lasso_def)
qed

lemma lasso_detect:
  "detectCycles lassoGraph = Some \<lparr>hasCycle = True, cycle = Some [''aaa'', ''bbb'', ''ccc'', ''bbb'']\<rparr>"
  by (simp add: detectCycles_def lassoGraph_def mkGraph_def mkNode_def allIds_def nodeMapOf_def
        initialDfs_def)

lemma lasso_edges:
  "depEdges lassoGraph = {(''aaa'', ''bbb''), (''bbb'', ''ccc''), (''ccc'', ''bbb'')}"
  by (auto simp: depEdges_alt lassoGraph_def mkGraph_def mkNode_def)

lemma lasso_has_cycle: "hasDependencyCycle lassoGraph"
proof -
  have "(''bbb'', ''ccc'') \<in> depEdges lassoGraph" "(''ccc'', ''bbb'') \<in> depEdges lassoGraph"
    by (simp_all add: lasso_edges)
  then have "(''bbb'', ''bbb'') \<in> (depEdges lassoGraph)\<^sup>+" by (rule trancl_into_trancl2[OF _ r_into_trancl])
  then show ?thesis unfolding hasDependencyCycle_def by blast
qed

theorem validate_rejects_cycles_witness:
  "hasDependencyCycle lassoGraph \<and> distinct (map nid (nodes lassoGraph))
   \<and> (\<exists>v. validate lassoGraph = Some v \<and> \<not> valid v)
   \<and> detectCycles lassoGraph
        = Some \<lparr>hasCycle = True, cycle = Some ([''aaa''] @ ''bbb'' # [''ccc''] @ [''bbb''])\<rparr>
   \<and> closedWalk (depEdges lassoGraph) (''bbb'' # [''ccc''] @ [''bbb''])"
proof -
  have d: "distinct (map nid (nodes lassoGraph))"
    by (simp add: lassoGraph_def mkGraph_def mkNode_def)
  from validate_rejects_cycles[of lassoGraph] lasso_has_cycle
  have "\<exists>v. validate lassoGraph = Some v \<and> \<not> valid v" by blast
  moreover have "closedWalk (depEdges lassoGraph) (''bbb'' # [''ccc''] @ [''bbb''])"
    by (simp add: closedWalk_def lasso_edges)
  ultimately show ?thesis using lasso_has_cycle d lasso_detect by simp
qed

theorem reported_path_not_a_cycle_counterexample:
  "hasDependencyCycle lassoGraph
   \<and> validate lassoGraph
       = Some \<lparr>valid = False, errors = [''Cycle detected: aaa -> bbb -> ccc -> bbb'']\<rparr>
   \<and> detectCycles lassoGraph
       = Some \<lparr>hasCycle = True, cycle = Some [''aaa'', ''bbb'', ''ccc'', ''bbb'']\<rparr>
   \<and> \<not> closedWalk (depEdges lassoGraph) [''aaa'', ''bbb'', ''ccc'', ''bbb'']
   \<and> (''aaa'', ''aaa'') \<notin> (depEdges lassoGraph)\<^sup>+"
proof -
  have v: "validate lassoGraph
       = Some \<lparr>valid = False, errors = [''Cycle detected: aaa -> bbb -> ccc -> bbb'']\<rparr>"
    unfolding validate_def lasso_detect
    by (simp add: lassoGraph_def mkGraph_def mkNode_def danglingErrors_def)
  have nc: "\<not> closedWalk (depEdges lassoGraph) [''aaa'', ''bbb'', ''ccc'', ''bbb'']"
    by (simp add: closedWalk_def)
  have "(''aaa'', ''aaa'') \<notin> (depEdges lassoGraph)\<^sup>+"
  proof
    assume "(''aaa'', ''aaa'') \<in> (depEdges lassoGraph)\<^sup>+"
    then obtain y where "(y, ''aaa'') \<in> depEdges lassoGraph" by (blast elim: tranclE)
    then show False by (simp add: lasso_edges)
  qed
  with v nc lasso_has_cycle lasso_detect show ?thesis by simp
qed

section \<open>Retrying a node that never completes\<close>

lemma invokedOf_append: "invokedOf (xs @ ys) = invokedOf xs @ invokedOf ys"
  by (induction xs rule: invokedOf.induct) auto

lemma sleepsOf_append: "sleepsOf (xs @ ys) = sleepsOf xs @ sleepsOf ys"
  by (induction xs rule: sleepsOf.induct) auto

lemma batchesOf_append: "batchesOf (xs @ ys) = batchesOf xs @ batchesOf ys"
  by (induction xs rule: batchesOf.induct) auto

lemma specRetryTrace_split:
  assumes m: "0 < m"
  shows "specRetryTrace n i r m =
     concat (map (\<lambda>k. [Invoked n, Slept (i * r ^ (k - 1) * 1000)]) [1..<m]) @ [Invoked n]"
proof -
  let ?F = "\<lambda>k. Invoked n # (if k < m then [Slept (i * r ^ (k - 1) * 1000)] else [])"
  let ?G = "\<lambda>k. [Invoked n, Slept (i * r ^ (k - 1) * 1000)]"
  have c: "map ?F [1..<m] = map ?G [1..<m]"
    by (rule map_cong) auto
  have "[1..<Suc m] = [1..<m] @ [m]"
    using m by (metis One_nat_def Suc_leI upt_Suc_append)
  then have "specRetryTrace n i r m = concat (map ?F ([1..<m] @ [m]))"
    unfolding specRetryTrace_def by (rule arg_cong)
  also have "\<dots> = concat (map ?F [1..<m]) @ ?F m"
    unfolding map_append concat_append by simp
  also have "\<dots> = concat (map ?G [1..<m]) @ [Invoked n]"
    unfolding c by simp
  finally show ?thesis .
qed

lemma invokedOf_pairs:
  "invokedOf (concat (map (\<lambda>k. [Invoked n, Slept (f k)]) ks)) = replicate (length ks) n"
  by (induction ks) auto

lemma sleepsOf_pairs:
  "sleepsOf (concat (map (\<lambda>k. [Invoked n, Slept (f k)]) ks)) = map f ks"
  by (induction ks) auto

lemma specRetryTrace_invoked:
  assumes m: "0 < m"
  shows "invokedOf (specRetryTrace n i r m) = replicate m n"
proof -
  have "length [1..<m] = m - 1" by simp
  then have "invokedOf (specRetryTrace n i r m) = replicate (m - 1) n @ [n]"
    unfolding specRetryTrace_split[OF m] invokedOf_append invokedOf_pairs by simp
  also have "\<dots> = replicate (Suc (m - 1)) n"
    by (simp only: replicate_append_same replicate_Suc)
  also have "Suc (m - 1) = m" using m by simp
  finally show ?thesis .
qed

lemma specRetryTrace_sleeps:
  assumes m: "0 < m"
  shows "sleepsOf (specRetryTrace n i r m) = map (\<lambda>k. i * r ^ (k - 1) * 1000) [1..<m]"
  unfolding specRetryTrace_split[OF m] sleepsOf_append sleepsOf_pairs by simp

lemma invoke_eq:
  "invoke ex ctx st =
     (fst (ex ctx (world st)),
      \<lparr>world = snd (ex ctx (world st)), effects = effects st @ [Invoked (nid (ctxNode ctx))]\<rparr>)"
  by (simp add: invoke_def split: prod.splits)

lemma retryLoop_exit:
  "\<not> real a < maxAtt \<Longrightarrow>
     retryLoop ex ctx maxAtt r a d le st
       = (Inl (case le of Some e \<Rightarrow> e | None \<Rightarrow> ''Max retries exceeded''), st)"
  by (subst retryLoop.simps) simp

lemma retryLoop_completed:
  assumes "real a < maxAtt" and "fst (ex ctx (world st)) = Inr res" and "status res = Completed"
  shows "retryLoop ex ctx maxAtt r a d le st =
           (Inr res, \<lparr>world = snd (ex ctx (world st)),
                      effects = effects st @ [Invoked (nid (ctxNode ctx))]\<rparr>)"
  using assms by (subst retryLoop.simps) (simp add: invoke_eq)

lemma retryLoop_retry:
  assumes "real a < maxAtt"
    and "\<not> (case fst (ex ctx (world st)) of Inr result \<Rightarrow> status result = Completed | Inl _ \<Rightarrow> False)"
  shows "retryLoop ex ctx maxAtt r a d le st =
           (if real (a + 1) < maxAtt
            then retryLoop ex ctx maxAtt r (a + 1) (d * r)
                   (Some (attemptError (fst (ex ctx (world st)))))
                   \<lparr>world = snd (ex ctx (world st)),
                    effects = effects st @ [Invoked (nid (ctxNode ctx)), Slept d]\<rparr>
            else retryLoop ex ctx maxAtt r (a + 1) d
                   (Some (attemptError (fst (ex ctx (world st)))))
                   \<lparr>world = snd (ex ctx (world st)),
                    effects = effects st @ [Invoked (nid (ctxNode ctx))]\<rparr>)"
  using assms by (subst retryLoop.simps) (simp add: invoke_eq)

lemma retryLoop_never_completes:
  assumes never: "\<forall>w. \<exists>res. fst (ex ctx w) = Inr res \<and> status res \<noteq> Completed"
  shows "a \<le> m \<Longrightarrow> retryLoop ex ctx (real m) r a d le st =
     (Inl (if a < m then attemptError (outcomeAt ex ctx (m - a - 1) (world st))
           else (case le of Some e \<Rightarrow> e | None \<Rightarrow> ''Max retries exceeded'')),
      \<lparr>world = worldAfter ex ctx (m - a) (world st),
       effects = effects st @
         concat (map (\<lambda>k. Invoked (nid (ctxNode ctx))
                           # (if k < m then [Slept (d * r ^ (k - a - 1))] else []))
                   [Suc a..<Suc m])\<rparr>)"
proof (induction "m - a" arbitrary: a d le st)
  case 0
  then have "a = m" by simp
  then show ?case by (simp add: retryLoop_exit)
next
  case (Suc j)
  let ?n = "nid (ctxNode ctx)"
  let ?o = "fst (ex ctx (world st))"
  let ?w1 = "snd (ex ctx (world st))"
  from Suc(2) have am: "a < m" and j: "j = m - (a + 1)" by simp_all
  from never obtain res where res: "?o = Inr res" "status res \<noteq> Completed" by blast
  then have nc: "\<not> (case ?o of Inr result \<Rightarrow> status result = Completed | Inl _ \<Rightarrow> False)"
    by simp
  have lt: "real a < real m" using am by simp
  note step = retryLoop_retry[of a "real m" ex ctx st r d le, OF lt nc]
  have wa: "worldAfter ex ctx (m - a) (world st) = worldAfter ex ctx (m - (a + 1)) ?w1"
    using am by (simp add: Suc_diff_Suc[symmetric])
  have upt: "[Suc a..<Suc m] = Suc a # [Suc (a + 1)..<Suc m]"
    using am by (simp add: upt_conv_Cons)
  show ?case
  proof (cases "a + 1 < m")
    case True
    let ?st2 = "\<lparr>world = ?w1, effects = effects st @ [Invoked ?n, Slept d]\<rparr>"
    have le': "a + 1 \<le> m" using True by simp
    have oa: "outcomeAt ex ctx (m - a - 1) (world st) = outcomeAt ex ctx (m - (a + 1) - 1) ?w1"
    proof -
      from True obtain i where i: "m - a - 1 = Suc i" "m - (a + 1) - 1 = i"
        by (metis Suc_diff_Suc diff_diff_left plus_1_eq_Suc add.commute)
      show ?thesis unfolding i outcomeAt_def by simp
    qed
    have tail: "map (\<lambda>k. Invoked ?n # (if k < m then [Slept (d * r ^ (k - a - 1))] else []))
                  [Suc (a + 1)..<Suc m]
              = map (\<lambda>k. Invoked ?n # (if k < m then [Slept (d * r * r ^ (k - (a + 1) - 1))] else []))
                  [Suc (a + 1)..<Suc m]"
    proof (rule map_cong[OF refl])
      fix k assume "k \<in> set [Suc (a + 1)..<Suc m]"
      then have "k - a - 1 = Suc (k - (a + 1) - 1)" by auto
      then show "Invoked ?n # (if k < m then [Slept (d * r ^ (k - a - 1))] else [])
               = Invoked ?n # (if k < m then [Slept (d * r * r ^ (k - (a + 1) - 1))] else [])"
        by simp
    qed
    have "retryLoop ex ctx (real m) r a d le st
            = retryLoop ex ctx (real m) r (a + 1) (d * r) (Some (attemptError ?o)) ?st2"
      using step True by simp
    also have "\<dots> = (Inl (attemptError (outcomeAt ex ctx (m - (a + 1) - 1) ?w1)),
        \<lparr>world = worldAfter ex ctx (m - (a + 1)) ?w1,
         effects = (effects st @ [Invoked ?n, Slept d]) @
           concat (map (\<lambda>k. Invoked ?n # (if k < m then [Slept (d * r * r ^ (k - (a + 1) - 1))] else []))
                     [Suc (a + 1)..<Suc m])\<rparr>)"
      using Suc(1)[OF j le', of "d * r" "Some (attemptError ?o)" ?st2] True by simp
    finally show ?thesis
      using am True unfolding oa wa upt tail[symmetric] by simp
  next
    case False
    with am have eq: "a + 1 = m" by simp
    let ?st1 = "\<lparr>world = ?w1, effects = effects st @ [Invoked ?n]\<rparr>"
    have "retryLoop ex ctx (real m) r a d le st
            = retryLoop ex ctx (real m) r (a + 1) d (Some (attemptError ?o)) ?st1"
      using step False by simp
    also have "\<dots> = (Inl (attemptError ?o), ?st1)"
      using eq by (simp add: retryLoop_exit)
    finally show ?thesis
      using am eq[symmetric] by (simp add: outcomeAt_def)
  qed
qed

lemma executeWithRetry_exhausted:
  assumes p: "retriesAllowed p = Some True" "maxAttempts p = Some (real m)" "1 \<le> m"
      "intervalSeconds p = Some i" "i \<noteq> 0" "backoffRate p = Some r" "r \<noteq> 0"
    and never: "\<forall>w. \<exists>res. fst (ex ctx w) = Inr res \<and> status res \<noteq> Completed"
  shows "executeWithRetry ex ctx (Some p) st =
      (Inl (attemptError (outcomeAt ex ctx (m - 1) (world st))),
       \<lparr>world = worldAfter ex ctx m (world st),
        effects = effects st @ specRetryTrace (nid (ctxNode ctx)) i r m\<rparr>)"
proof -
  have tr: "map (\<lambda>k. Invoked (nid (ctxNode ctx))
                      # (if k < m then [Slept (i * 1000 * r ^ (k - 0 - 1))] else [])) [Suc 0..<Suc m]
          = map (\<lambda>k. Invoked (nid (ctxNode ctx))
                      # (if k < m then [Slept (i * r ^ (k - 1) * 1000)] else [])) [1..<Suc m]"
    by (rule map_cong) (simp_all add: mult.commute mult.left_commute)
  have m0: "real m \<noteq> 0" "0 < m" using p(3) by simp_all
  have "executeWithRetry ex ctx (Some p) st
          = retryLoop ex ctx (real m) r 0 (i * 1000) None st"
    using p m0 by (simp add: executeWithRetry_def truthy_def orElse_def)
  also have "\<dots> = (Inl (attemptError (outcomeAt ex ctx (m - 0 - 1) (world st))),
       \<lparr>world = worldAfter ex ctx (m - 0) (world st),
        effects = effects st @ concat (map (\<lambda>k. Invoked (nid (ctxNode ctx))
                      # (if k < m then [Slept (i * 1000 * r ^ (k - 0 - 1))] else [])) [Suc 0..<Suc m])\<rparr>)"
    using retryLoop_never_completes[where ex=ex and ctx=ctx and a=0 and m=m and r=r
            and d="i * 1000" and le=None and st=st] never m0 by simp
  finally show ?thesis
    unfolding tr specRetryTrace_def by simp
qed

text \<open>
  C3. Let a node allow retries, with \<open>maxAttempts = m \<ge> 1\<close>, \<open>intervalSeconds = i\<close> and
  \<open>backoffRate = r\<close> (both non-zero, so that no default replaces them), and let its executor
  return a result that is not \<open>completed\<close> whenever it is invoked. Then \<open>executeNode\<close> invokes
  the executor exactly \<open>m\<close> times, sleeps \<open>i \<times> r^(n-1)\<close> seconds after the \<open>n\<close>-th attempt for
  \<open>n < m\<close> and not after the last one, and returns a result for the node with status
  \<open>failed\<close>, no output handles and the error of the last attempt. \<open>executeWithRetry\<close> throws
  that error; \<open>executeNode\<close> catches it, so the batch join receives a result.
\<close>

theorem executeNode_retries_exhausted:
  assumes "retryPolicy node = Some p"
    and "retriesAllowed p = Some True"
    and "maxAttempts p = Some (real m)" and "1 \<le> m"
    and "intervalSeconds p = Some i" and "i \<noteq> 0"
    and "backoffRate p = Some r" and "r \<noteq> 0"
    and "\<forall>w. \<exists>res. fst (ex \<lparr>ctxNode = node, ctxCompleted = c\<rparr> w) = Inr res
                     \<and> status res \<noteq> Completed"
  shows "executeNode ex node c st =
      (\<lparr>resNodeId = nid node, status = Failed, outputHandles = [],
        resError = Some (attemptError
                     (outcomeAt ex \<lparr>ctxNode = node, ctxCompleted = c\<rparr> (m - 1) (world st)))\<rparr>,
       \<lparr>world = worldAfter ex \<lparr>ctxNode = node, ctxCompleted = c\<rparr> m (world st),
        effects = effects st @ specRetryTrace (nid node) i r m\<rparr>)
    \<and> invokedOf (specRetryTrace (nid node) i r m) = replicate m (nid node)
    \<and> sleepsOf (specRetryTrace (nid node) i r m) = map (\<lambda>n. i * r ^ (n - 1) * 1000) [1..<m]
    \<and> fst (executeWithRetry ex \<lparr>ctxNode = node, ctxCompleted = c\<rparr> (retryPolicy node) st)
        = Inl (attemptError (outcomeAt ex \<lparr>ctxNode = node, ctxCompleted = c\<rparr> (m - 1) (world st)))
    \<and> fst (executeBatch ex [node] c st) =
        [\<lparr>resNodeId = nid node, status = Failed, outputHandles = [],
          resError = Some (attemptError
                     (outcomeAt ex \<lparr>ctxNode = node, ctxCompleted = c\<rparr> (m - 1) (world st)))\<rparr>]"
proof -
  let ?ctx = "\<lparr>ctxNode = node, ctxCompleted = c\<rparr>"
  have m: "0 < m" using assms(4) by simp
  have w: "executeWithRetry ex ?ctx (retryPolicy node) st =
      (Inl (attemptError (outcomeAt ex ?ctx (m - 1) (world st))),
       \<lparr>world = worldAfter ex ?ctx m (world st),
        effects = effects st @ specRetryTrace (nid node) i r m\<rparr>)"
    unfolding assms(1)
    using executeWithRetry_exhausted[where p=p and m=m and i=i and r=r and ex=ex
            and ctx="?ctx" and st=st] assms(2-9) by simp
  then have n: "executeNode ex node c st =
      (\<lparr>resNodeId = nid node, status = Failed, outputHandles = [],
        resError = Some (attemptError (outcomeAt ex ?ctx (m - 1) (world st)))\<rparr>,
       \<lparr>world = worldAfter ex ?ctx m (world st),
        effects = effects st @ specRetryTrace (nid node) i r m\<rparr>)"
    by (simp add: executeNode_def)
  show ?thesis
    using w n specRetryTrace_invoked[OF m] specRetryTrace_sleeps[OF m] by simp
qed

lemma failing_never:
  "\<forall>w. \<exists>res. fst (failingExecutor \<lparr>ctxNode = retryingNode, ctxCompleted = []\<rparr> w) = Inr res
               \<and> status res \<noteq> Completed"
  by (simp add: failingExecutor_def)

theorem executeNode_retries_exhausted_witness:
  "executeNode failingExecutor retryingNode [] \<lparr>world = 0, effects = []\<rparr> =
      (\<lparr>resNodeId = ''flaky'', status = Failed, outputHandles = [], resError = Some ''boom!!''\<rparr>,
       \<lparr>world = 3, effects = [Invoked ''flaky'', Slept 2000, Invoked ''flaky'', Slept 6000,
                              Invoked ''flaky'']\<rparr>)"
proof -
  have p: "retryPolicy retryingNode = Some \<lparr>retriesAllowed = Some True, maxAttempts = Some 3,
             intervalSeconds = Some 2, backoffRate = Some 3\<rparr>"
    by (simp add: retryingNode_def)
  have n: "nid retryingNode = ''flaky''" by (simp add: retryingNode_def mkNode_def)
  have t: "specRetryTrace ''flaky'' 2 3 3 = [Invoked ''flaky'', Slept 2000, Invoked ''flaky'', Slept 6000,
                              Invoked ''flaky'']"
    by (simp add: specRetryTrace_def upt_conv_Cons)
  have o: "attemptError (outcomeAt failingExecutor \<lparr>ctxNode = retryingNode, ctxCompleted = []\<rparr> 2 0)
             = ''boom!!''"
    by (simp add: outcomeAt_def failingExecutor_def attemptError_def orElseStr_def numeral_2_eq_2 numeral_3_eq_3)
  have w: "worldAfter failingExecutor \<lparr>ctxNode = retryingNode, ctxCompleted = []\<rparr> 3 0 = 3"
    by (simp add: failingExecutor_def numeral_3_eq_3)
  from executeNode_retries_exhausted[where node=retryingNode
         and p="\<lparr>retriesAllowed = Some True, maxAttempts = Some 3,
                 intervalSeconds = Some 2, backoffRate = Some 3\<rparr>"
         and m=3 and i=2 and r=3 and ex=failingExecutor and c="[]"
         and st="\<lparr>world = 0, effects = []\<rparr>"] p failing_never
  show ?thesis by (simp add: n t o w)
qed

section \<open>A chain whose middle node fails\<close>

lemma orElse_pos: "(case x of None \<Rightarrow> True | Some v \<Rightarrow> 1 \<le> v) \<Longrightarrow> 0 < d \<Longrightarrow> 0 < orElse x d"
  by (auto simp: orElse_def split: option.splits)

lemma executeNode_completes:
  assumes pol: "case retryPolicy node of None \<Rightarrow> True | Some p \<Rightarrow> RetryPolicySchema p"
    and res: "fst (ex \<lparr>ctxNode = node, ctxCompleted = c\<rparr> (world st)) = Inr res"
      "status res = Completed"
  shows "executeNode ex node c st =
           (res, \<lparr>world = snd (ex \<lparr>ctxNode = node, ctxCompleted = c\<rparr> (world st)),
                  effects = effects st @ [Invoked (nid node)]\<rparr>)"
proof -
  let ?ctx = "\<lparr>ctxNode = node, ctxCompleted = c\<rparr>"
  let ?policy = "case retryPolicy node of None \<Rightarrow> defaultPolicy | Some p \<Rightarrow> p"
  let ?st1 = "\<lparr>world = snd (ex ?ctx (world st)), effects = effects st @ [Invoked (nid node)]\<rparr>"
  have pos: "real 0 < orElse (maxAttempts ?policy) 3"
    using pol by (auto simp: defaultPolicy_def orElse_def RetryPolicySchema_def split: option.splits)
  have "executeWithRetry ex ?ctx (retryPolicy node) st = (Inr res, ?st1)"
  proof (cases "truthy (retriesAllowed ?policy)")
    case False
    then show ?thesis using res by (simp add: executeWithRetry_def invoke_eq)
  next
    case True
    then show ?thesis
      using retryLoop_completed[where a=0 and maxAtt="orElse (maxAttempts ?policy) 3" and ex=ex
              and ctx="?ctx" and st=st and res=res and r="orElse (backoffRate ?policy) 2"
              and d="orElse (intervalSeconds ?policy) 5 * 1000" and le=None] pos res
      by (simp add: executeWithRetry_def)
  qed
  then show ?thesis by (simp add: executeNode_def)
qed

lemma retryLoop_fails:
  "\<forall>w. \<exists>res. fst (ex ctx w) = Inr res \<and> status res \<noteq> Completed \<Longrightarrow>
     \<exists>e w' tr. retryLoop ex ctx maxAtt r a d le st = (Inl e, \<lparr>world = w', effects = effects st @ tr\<rparr>)
        \<and> set (invokedOf tr) \<subseteq> {nid (ctxNode ctx)} \<and> batchesOf tr = []"
proof (induction ex ctx maxAtt r a d le st rule: retryLoop.induct)
  case (1 ex ctx maxAtt r a d le st)
  let ?n = "nid (ctxNode ctx)"
  show ?case
  proof (cases "real a < maxAtt")
    case False
    have "retryLoop ex ctx maxAtt r a d le st
            = (Inl (case le of Some e \<Rightarrow> e | None \<Rightarrow> ''Max retries exceeded''),
               \<lparr>world = world st, effects = effects st @ []\<rparr>)"
      using False by (simp add: retryLoop_exit)
    then show ?thesis by (metis batchesOf.simps(1) empty_subsetI invokedOf.simps(1) list.set(1))
  next
    case True
    let ?o = "fst (ex ctx (world st))"
    let ?w1 = "snd (ex ctx (world st))"
    from 1(3) obtain res where res: "?o = Inr res" "status res \<noteq> Completed" by blast
    then have nc: "\<not> (case ?o of Inr result \<Rightarrow> status result = Completed | Inl _ \<Rightarrow> False)"
      by simp
    have inv: "invoke ex ctx st = (?o, \<lparr>world = ?w1, effects = effects st @ [Invoked ?n]\<rparr>)"
      by (rule invoke_eq)
    note step = retryLoop_retry[of a maxAtt ex ctx st r d le, OF True nc]
    show ?thesis
    proof (cases "real (a + 1) < maxAtt")
      case t: True
      let ?st2 = "(\<lparr>world = ?w1, effects = effects st @ [Invoked ?n]\<rparr>)
                    \<lparr>effects := effects \<lparr>world = ?w1, effects = effects st @ [Invoked ?n]\<rparr> @ [Slept d]\<rparr>"
      from "1.IH"(1)[OF True inv[symmetric] nc t 1(3)]
      obtain e w' tr where r: "retryLoop ex ctx maxAtt r (a + 1) (d * r) (Some (attemptError ?o)) ?st2
                 = (Inl e, \<lparr>world = w', effects = effects ?st2 @ tr\<rparr>)"
        and tr: "set (invokedOf tr) \<subseteq> {?n}" "batchesOf tr = []" by blast
      have "retryLoop ex ctx maxAtt r a d le st
              = (Inl e, \<lparr>world = w', effects = effects st @ ([Invoked ?n, Slept d] @ tr)\<rparr>)"
        using step t r by simp
      moreover have "set (invokedOf ([Invoked ?n, Slept d] @ tr)) \<subseteq> {?n}"
        "batchesOf ([Invoked ?n, Slept d] @ tr) = []"
        using tr by simp_all
      ultimately show ?thesis by blast
    next
      case f: False
      let ?st1 = "\<lparr>world = ?w1, effects = effects st @ [Invoked ?n]\<rparr>"
      from "1.IH"(2)[OF True inv[symmetric] nc f 1(3)]
      obtain e w' tr where r: "retryLoop ex ctx maxAtt r (a + 1) d (Some (attemptError ?o)) ?st1
                 = (Inl e, \<lparr>world = w', effects = effects ?st1 @ tr\<rparr>)"
        and tr: "set (invokedOf tr) \<subseteq> {?n}" "batchesOf tr = []" by blast
      have "retryLoop ex ctx maxAtt r a d le st
              = (Inl e, \<lparr>world = w', effects = effects st @ ([Invoked ?n] @ tr)\<rparr>)"
        using step f r by simp
      moreover have "set (invokedOf ([Invoked ?n] @ tr)) \<subseteq> {?n}"
        "batchesOf ([Invoked ?n] @ tr) = []"
        using tr by simp_all
      ultimately show ?thesis by blast
    qed
  qed
qed

lemma executeNode_fails:
  assumes never: "\<forall>w. \<exists>res. fst (ex \<lparr>ctxNode = node, ctxCompleted = c\<rparr> w) = Inr res
                      \<and> resNodeId res = nid node \<and> status res = Failed"
  shows "\<exists>res w' tr. executeNode ex node c st = (res, \<lparr>world = w', effects = effects st @ tr\<rparr>)
           \<and> resNodeId res = nid node \<and> status res = Failed
           \<and> set (invokedOf tr) \<subseteq> {nid node} \<and> batchesOf tr = []"
proof -
  let ?ctx = "\<lparr>ctxNode = node, ctxCompleted = c\<rparr>"
  let ?policy = "case retryPolicy node of None \<Rightarrow> defaultPolicy | Some p \<Rightarrow> p"
  show ?thesis
  proof (cases "truthy (retriesAllowed ?policy)")
    case False
    from never obtain res where res: "fst (ex ?ctx (world st)) = Inr res"
      "resNodeId res = nid node" "status res = Failed" by blast
    have "executeNode ex node c st
            = (res, \<lparr>world = snd (ex ?ctx (world st)), effects = effects st @ [Invoked (nid node)]\<rparr>)"
      using False res by (simp add: executeNode_def executeWithRetry_def invoke_eq)
    moreover have "set (invokedOf [Invoked (nid node)]) \<subseteq> {nid node}"
      "batchesOf [Invoked (nid node)] = []" by simp_all
    ultimately show ?thesis using res by blast
  next
    case True
    have nc: "\<forall>w. \<exists>res. fst (ex ?ctx w) = Inr res \<and> status res \<noteq> Completed"
    proof
      fix w
      from never obtain res where "fst (ex ?ctx w) = Inr res" "status res = Failed" by blast
      then show "\<exists>res. fst (ex ?ctx w) = Inr res \<and> status res \<noteq> Completed" by auto
    qed
    from retryLoop_fails[where ex=ex and ctx="?ctx" and maxAtt="orElse (maxAttempts ?policy) 3"
           and r="orElse (backoffRate ?policy) 2" and a=0
           and d="orElse (intervalSeconds ?policy) 5 * 1000" and le=None and st=st, OF nc]
    obtain e w' tr where "retryLoop ex ?ctx (orElse (maxAttempts ?policy) 3)
         (orElse (backoffRate ?policy) 2) 0 (orElse (intervalSeconds ?policy) 5 * 1000) None st
           = (Inl e, \<lparr>world = w', effects = effects st @ tr\<rparr>)"
      and tr: "set (invokedOf tr) \<subseteq> {nid (ctxNode ?ctx)}" "batchesOf tr = []" by blast
    then have "executeNode ex node c st
        = (\<lparr>resNodeId = nid node, status = Failed, outputHandles = [], resError = Some e\<rparr>,
           \<lparr>world = w', effects = effects st @ tr\<rparr>)"
      using True by (simp add: executeNode_def executeWithRetry_def)
    with tr show ?thesis by auto
  qed
qed


lemma jsSlice_single: "1 \<le> p \<Longrightarrow> jsSlice 0 p [x] = [x]"
proof -
  assume "1 \<le> p"
  then have "1 \<le> \<lfloor>p\<rfloor>" by linarith
  then have "nat (min \<lfloor>p\<rfloor> 1) = 1" by simp
  then show ?thesis
    using \<open>1 \<le> p\<close> by (simp add: jsSlice_def relativeIndex_def toIntegerOrInfinity_def Let_def)
qed

lemma runBatches_single:
  assumes "1 \<le> p"
  shows "runBatches (Suc fuel) ex p 0 [n] c f st =
     Some (case executeNode ex n c (st\<lparr>effects := effects st @ [BatchStarted [nid n]]\<rparr>) of
        (res, st1) \<Rightarrow> (case processResult (c, f) res of (c', f') \<Rightarrow> (c', f', st1)))"
proof -
  have stop: "runBatches fuel ex p p [n] c' f' st' = Some (c', f', st')" for c' f' st'
    using assms by (cases fuel) simp_all
  show ?thesis
    using assms by (simp add: jsSlice_single stop split: prod.splits)
qed

lemma chain_valid: "validate (chainGraph pa pb pc) = Some \<lparr>valid = True, errors = []\<rparr>"
  by (simp add: validate_def detectCycles_def chainGraph_def mkGraph_def mkNode_def allIds_def
        nodeMapOf_def initialDfs_def danglingErrors_def Let_def)

text \<open>
  C2 (Scenario A). In the chain \<open>a \<rightarrow> b \<rightarrow> c\<close>, let the executor complete \<open>a\<close> with the handles
  \<open>hs\<close> and return a failed result for \<open>b\<close> whenever it is invoked, whatever retry policy \<open>b\<close>
  has. Then \<open>execute\<close> returns a result with status \<open>failed\<close>, whose outputs are exactly the
  pairs of \<open>a\<close> with its handles and whose error is \<open>Failed nodes: b\<close>; it starts the batches
  \<open>[a]\<close> and \<open>[b]\<close> and no other, and invokes the executor on \<open>a\<close> and \<open>b\<close> only, so \<open>c\<close> is
  never attempted. The parallelism in force is a number that is at least 1, as the default
  and every positive whole number are.
\<close>

theorem chain_b_fails:
  assumes pa: "case pa of None \<Rightarrow> True | Some p \<Rightarrow> RetryPolicySchema p"
    and aCompletes: "\<forall>c w. \<exists>res.
        fst (ex \<lparr>ctxNode = (mkNode ''a'' [])\<lparr>retryPolicy := pa\<rparr>, ctxCompleted = c\<rparr> w) = Inr res
        \<and> resNodeId res = ''a'' \<and> status res = Completed \<and> outputHandles res = hs"
    and bFails: "\<forall>c w. \<exists>res.
        fst (ex \<lparr>ctxNode = (mkNode ''b'' [''a''])\<lparr>retryPolicy := pb\<rparr>, ctxCompleted = c\<rparr> w) = Inr res
        \<and> resNodeId res = ''b'' \<and> status res = Failed"
    and par: "1 \<le> effectiveParallelism config (chainGraph pa pb pc)"
    and fuel: "2 \<le> fuel"
  shows "\<exists>st'. execute fuel localeCompare config ex runId (chainGraph pa pb pc) st =
           Some (Inr \<lparr>resultRunId = runId, runStatus = RunFailed,
                      outputs = map (\<lambda>h. (''a'', h)) hs,
                      runError = Some ''Failed nodes: b''\<rparr>, st')
         \<and> batchesOf (effects st') = batchesOf (effects st) @ [[''a''], [''b'']]
         \<and> set (invokedOf (effects st')) \<subseteq> set (invokedOf (effects st)) \<union> {''a'', ''b''}"
proof -
  let ?A = "(mkNode ''a'' [])\<lparr>retryPolicy := pa\<rparr>"
  let ?B = "(mkNode ''b'' [''a''])\<lparr>retryPolicy := pb\<rparr>"
  let ?C = "(mkNode ''c'' [''b''])\<lparr>retryPolicy := pc\<rparr>"
  let ?g = "chainGraph pa pb pc"
  let ?k = "effectiveParallelism config ?g"
  have ids: "nid ?A = ''a''" "nid ?B = ''b''" "nid ?C = ''c''"
    "deps ?A = []" "deps ?B = [''a'']" "deps ?C = [''b'']"
    "retryPolicy ?A = pa" "retryPolicy ?B = pb"
    by (simp_all add: mkNode_def)
  have nodes: "nodes ?g = [?A, ?B, ?C]" by (simp add: chainGraph_def mkGraph_def)
  from fuel obtain n where n: "fuel = Suc (Suc n)"
    by (metis Suc_le_D numeral_2_eq_2 Suc_le_mono)
  \<comment> \<open>first round: \<open>a\<close> alone is ready and completes\<close>
  define st0 where "st0 = st\<lparr>effects := effects st @ [BatchStarted [''a'']]\<rparr>"
  from aCompletes obtain resA where resA:
    "fst (ex \<lparr>ctxNode = ?A, ctxCompleted = []\<rparr> (world st0)) = Inr resA"
    "resNodeId resA = ''a''" "status resA = Completed" "outputHandles resA = hs" by blast
  define st1 where "st1 = \<lparr>world = snd (ex \<lparr>ctxNode = ?A, ctxCompleted = []\<rparr> (world st0)),
              effects = effects st0 @ [Invoked ''a'']\<rparr>"
  have polA: "case retryPolicy ?A of None \<Rightarrow> True | Some p \<Rightarrow> RetryPolicySchema p"
    using pa by (simp add: ids)
  have nodeA: "executeNode ex ?A [] st0 = (resA, st1)"
    using executeNode_completes[where node="?A" and ex=ex and c="[]" and st=st0 and res=resA]
      polA resA(1) resA(3) by (simp add: ids st1_def)
  have ready1: "getReadyNodes ?g {} = [?A]"
    by (simp add: getReadyNodes_def nodes ids)
  have round1: "runBatches fuel ex ?k 0 (sortNodes localeCompare [?A]) [] [] st
                  = Some ([(''a'', resA)], [], st1)"
    using nodeA resA
    unfolding n
    by (simp add: sortNodes_def runBatches_single[OF par] ids
          processResult_def st0_def[symmetric] del: runBatches.simps)
  \<comment> \<open>second round: \<open>b\<close> alone is ready and fails\<close>
  let ?c1 = "[(''a'', resA)]"
  define st1b where "st1b = st1\<lparr>effects := effects st1 @ [BatchStarted [''b'']]\<rparr>"
  have bF: "\<forall>w. \<exists>res. fst (ex \<lparr>ctxNode = ?B, ctxCompleted = ?c1\<rparr> w) = Inr res
                      \<and> resNodeId res = nid ?B \<and> status res = Failed"
    using bFails by (simp add: ids)
  from executeNode_fails[where node="?B" and ex=ex and c="?c1" and st=st1b, OF bF]
  obtain resB w' tr where nodeB: "executeNode ex ?B ?c1 st1b
        = (resB, \<lparr>world = w', effects = effects st1b @ tr\<rparr>)"
    and resB: "resNodeId resB = ''b''" "status resB = Failed"
    and tr: "set (invokedOf tr) \<subseteq> {''b''}" "batchesOf tr = []"
    by (auto simp: ids)
  define st2 where "st2 = \<lparr>world = w', effects = effects st1b @ tr\<rparr>"
  have ready2: "getReadyNodes ?g {''a''} = [?B]"
    by (simp add: getReadyNodes_def nodes ids)
  have round2: "runBatches fuel ex ?k 0 (sortNodes localeCompare [?B]) ?c1 [] st1
                  = Some (?c1, [''b''], st2)"
    using nodeB resB
    unfolding n
    by (simp add: sortNodes_def runBatches_single[OF par] ids
          processResult_def setAdd_def st1b_def[symmetric] st2_def[symmetric]
          del: runBatches.simps)
  have len: "length (nodes ?g) = 3" by (simp add: nodes)
  have step2: "executeLoop (Suc n) fuel localeCompare ?k ex ?g ?c1 [] st1
                 = Some (Inr (?c1, [''b'']), st2)"
    by (subst executeLoop.simps(2)) (simp add: len ready2 round2 del: runBatches.simps)
  have loop: "executeLoop (Suc (Suc n)) fuel localeCompare ?k ex ?g [] [] st
                = Some (Inr (?c1, [''b'']), st2)"
    by (subst executeLoop.simps(2))
       (simp add: len ready1 round1 step2 del: runBatches.simps executeLoop.simps)
  have out: "collectOutputs ?c1 = map (\<lambda>h. (''a'', h)) hs"
    using resA by (simp add: collectOutputs_def)
  have eff: "effects st2 = effects st @ [BatchStarted [''a''], Invoked ''a'', BatchStarted [''b'']] @ tr"
    by (simp add: st2_def st1b_def st1_def st0_def)
  have "execute fuel localeCompare config ex runId ?g st =
           Some (Inr \<lparr>resultRunId = runId, runStatus = RunFailed,
                      outputs = map (\<lambda>h. (''a'', h)) hs,
                      runError = Some ''Failed nodes: b''\<rparr>, st2)"
    using loop by (simp add: execute_def chain_valid out n)
  moreover have "batchesOf (effects st2) = batchesOf (effects st) @ [[''a''], [''b'']]"
    using tr by (simp add: eff batchesOf_append)
  moreover have "set (invokedOf (effects st2)) \<subseteq> set (invokedOf (effects st)) \<union> {''a'', ''b''}"
    using tr by (auto simp: eff invokedOf_append)
  ultimately show ?thesis by blast
qed

theorem chain_b_fails_witness:
  "\<exists>st'. execute 2 lexCompare serialConfig onlyAExecutor ''r'' (chainGraph None None None)
             \<lparr>world = 0, effects = []\<rparr>
           = Some (Inr \<lparr>resultRunId = ''r'', runStatus = RunFailed,
                        outputs = [(''a'', ''runs/r/nodes/a/out.md'')],
                        runError = Some ''Failed nodes: b''\<rparr>, st')
         \<and> batchesOf (effects st') = [[''a''], [''b'']]
         \<and> ''c'' \<notin> set (invokedOf (effects st'))"
proof -
  have a: "\<forall>c w. \<exists>res.
        fst (onlyAExecutor \<lparr>ctxNode = (mkNode ''a'' [])\<lparr>retryPolicy := None\<rparr>, ctxCompleted = c\<rparr> w) = Inr res
        \<and> resNodeId res = ''a'' \<and> status res = Completed
        \<and> outputHandles res = [''runs/r/nodes/a/out.md'']"
    by (simp add: onlyAExecutor_def mkNode_def)
  have b: "\<forall>c w. \<exists>res.
        fst (onlyAExecutor \<lparr>ctxNode = (mkNode ''b'' [''a''])\<lparr>retryPolicy := None\<rparr>, ctxCompleted = c\<rparr> w) = Inr res
        \<and> resNodeId res = ''b'' \<and> status res = Failed"
    by (simp add: onlyAExecutor_def mkNode_def)
  from chain_b_fails[where pa=None and pb=None and pc=None and ex=onlyAExecutor
         and hs="[''runs/r/nodes/a/out.md'']" and fuel=2 and localeCompare=lexCompare
         and config=serialConfig and runId="''r''" and st="\<lparr>world = 0, effects = []\<rparr>", OF _ a b]
  show ?thesis
    by (auto simp: effectiveParallelism_def configuredParallelism_def orElse_def serialConfig_def
          chainGraph_def mkGraph_def)
qed

section \<open>The batches are a function of the graph and the outcomes\<close>









declare executeLoop.simps(2) [simp del] specLoop.simps(2) [simp del]



































text \<open>Outside that statement: at a parallelism of 2.5, which the schema of the graph
  admits, five independent nodes are started in batches of two and of three; at 0.5, which
  only the unchecked configuration can give, every other batch is empty.\<close>

lemma fractional_parallelism_batches:
  "map_option (\<lambda>r. batchesOf (effects (snd r)))
     (execute 6 lexCompare wideConfig (plainExecutor (\<lambda>i. Some [])) ''r''
        (fanGraph\<lparr>globalMaxParallelism := Some (5/2)\<rparr>) \<lparr>world = 0, effects = []\<rparr>)
     = Some [[''alpha'', ''bravo''], [''charlie'', ''delta'', ''echo'']]"
  by code_simp

lemma half_parallelism_batches:
  "map_option (\<lambda>r. batchesOf (effects (snd r)))
     (execute 6 lexCompare \<lparr>cfgMaxParallelism = Some (1/2)\<rparr> (plainExecutor (\<lambda>i. Some [])) ''r''
        (mkGraph [mkNode ''bravo'' [], mkNode ''alpha'' []]) \<lparr>world = 0, effects = []\<rparr>)
     = Some [[], [''alpha''], [], [''bravo'']]"
  by code_simp

section \<open>Rolling back the removal of a bullet\<close>

text \<open>
  C8. The header of \<open>PlaybookStore.ts\<close> promises that all changes are reversible, and
  \<open>rollback\<close> inverts a removal into an addition of \<open>op.before\<close>. The operation that the
  store's own helper \<open>removeBullet\<close> builds names the bullet by id and has no \<open>before\<close>. On
  a playbook with the single bullet \<open>[b1] Write tests first\<close>, applying the diff with that
  operation succeeds and removes the bullet; rolling the diff back succeeds too, records
  the inverse diff as a second history entry, and leaves a bullet \<open>b1\<close> whose text is empty.
  The bullet set before \<open>applyDiff\<close> is not restored.
\<close>

theorem rollback_loses_removed_text:
  "removeBullet PlaybookMd ''b1'' ''obsolete'' [''notes.md''] = Inr (hd (ops removalDiff))
   \<and> fst (applyDiff sampleUuid removalDiff tacticsStore) = None
   \<and> fst (rollback sampleUuid ''2025-01-02T00:00:00.000Z'' (createdAt removalDiff) afterRemoval) = None
   \<and> bulletsOf sampleUuid tacticsStore PlaybookMd
       = [\<lparr>bid = ''b1'', btext = ''Write tests first'', bsection = ''Tactics That Work''\<rparr>]
   \<and> bulletsOf sampleUuid afterRemoval PlaybookMd = []
   \<and> bulletsOf sampleUuid afterRollback PlaybookMd
       = [\<lparr>bid = ''b1'', btext = [], bsection = ''Tactics That Work''\<rparr>]
   \<and> map createdAt (diffHistory afterRollback)
       = [''2025-01-01T00:00:00.000Z'', ''2025-01-02T00:00:00.000Z'']"
  by code_simp

section \<open>Curating a reflection leaves the stores alone\<close>

lemma splitOn_not_Nil: "splitOn c s \<noteq> []"
  by (induction s) (auto split: list.splits)

lemma splitOn_append_sep: "splitOn c (a @ c # b) = splitOn c a @ splitOn c b"
proof (induction a)
  case Nil
  then show ?case by simp
next
  case (Cons x a)
  obtain w ws where w: "splitOn c a = w # ws"
    using splitOn_not_Nil[of c a] by (cases "splitOn c a") auto
  with Cons show ?case by simp
qed

lemma splitOn_no_sep: "c \<notin> set s \<Longrightarrow> splitOn c s = [s]"
  by (induction s) auto

lemma join_snoc: "join sep (xs @ [x]) = (if xs = [] then x else join sep xs @ sep @ x)"
proof (induction xs)
  case Nil
  then show ?case by simp
next
  case (Cons y ys)
  then show ?case by (cases ys) auto
qed

lemma join_not_Nil:
  assumes "xs \<noteq> []" and "\<forall>x \<in> set xs. x \<noteq> []"
  shows "join sep xs \<noteq> []"
proof (cases xs)
  case Nil
  with assms show ?thesis by simp
next
  case (Cons x ys)
  with assms show ?thesis by (cases ys) auto
qed

lemma normalizeString_file:
  assumes "plainName name"
  shows "normalizeString a (j @ CHR ''/'' # name) = normalizeString a j @ [name]"
proof -
  from assms have s: "splitOn (CHR ''/'') name = [name]"
    by (simp add: plainName_def splitOn_no_sep)
  from assms have n: "normStep a res name = res @ [name]" for res
    by (simp add: plainName_def normStep_def)
  show ?thesis
    unfolding normalizeString_def splitOn_append_sep s by (simp add: n)
qed

lemma pathJoin_file:
  assumes p: "plainName name"
  shows "pathJoin (dirs @ [name]) = dirPrefix dirs @ name"
proof -
  define fd where "fd = filter (\<lambda>arg. arg \<noteq> []) dirs"
  from p have ne: "name \<noteq> []" and ns: "CHR ''/'' \<notin> set name" by (simp_all add: plainName_def)
  from ne ns have hd: "hd name \<noteq> CHR ''/''" and last: "last name \<noteq> CHR ''/''"
    by (metis hd_in_set, metis last_in_set)
  have f: "filter (\<lambda>arg. arg \<noteq> []) (dirs @ [name]) = fd @ [name]"
    using ne by (simp add: fd_def)
  show ?thesis
  proof (cases "fd = []")
    case True
    have n: "normalizeString True name = [name]"
      using p by (simp add: normalizeString_def splitOn_no_sep plainName_def normStep_def)
    have "pathJoin (dirs @ [name]) = name"
      unfolding pathJoin_def f True using ne hd last by (simp add: normalize_def n)
    moreover have "dirPrefix dirs = []"
      unfolding dirPrefix_def fd_def[symmetric] True by simp
    ultimately show ?thesis by simp
  next
    case False
    define j where "j = join ''/'' fd"
    have jne: "j \<noteq> []" unfolding j_def using False by (intro join_not_Nil) (auto simp: fd_def)
    have joined: "join ''/'' (fd @ [name]) = j @ CHR ''/'' # name"
      using False by (simp add: join_snoc j_def)
    define abs where "abs = (hd j = CHR ''/'')"
    define st where "st = normalizeString (\<not> abs) j"
    have seg: "normalizeString (\<not> abs) (j @ CHR ''/'' # name) = st @ [name]"
      unfolding st_def by (rule normalizeString_file[OF p])
    have "normalize (j @ CHR ''/'' # name)
            = (if abs then ''/'' else []) @ join ''/'' (st @ [name])"
      unfolding normalize_def using jne last ne by (simp add: abs_def[symmetric] seg)
    then have l: "pathJoin (dirs @ [name])
            = (if abs then ''/'' else []) @ (if st = [] then name else join ''/'' st @ ''/'' @ name)"
      unfolding pathJoin_def f joined by (simp add: join_snoc)
    have r: "dirPrefix dirs = (if abs then ''/'' else []) @ (if st = [] then [] else join ''/'' st @ ''/'')"
      unfolding dirPrefix_def fd_def[symmetric] j_def[symmetric] using jne
      by (simp add: abs_def[symmetric] st_def[symmetric])
    show ?thesis unfolding l r by simp
  qed
qed

lemma dirPrefix_end: "dirPrefix dirs = [] \<or> last (dirPrefix dirs) = CHR ''/''"
  by (simp add: dirPrefix_def Let_def)

lemma baseName_file:
  assumes "pre = [] \<or> last pre = CHR ''/''" and "CHR ''/'' \<notin> set name"
  shows "baseName (pre @ name) = name"
proof -
  have "takeWhile (\<lambda>c. c \<noteq> CHR ''/'') (rev pre) = []"
    using assms(1) by (cases pre rule: rev_cases) auto
  moreover have "takeWhile (\<lambda>c. c \<noteq> CHR ''/'') (rev name @ rev pre)
                   = rev name @ takeWhile (\<lambda>c. c \<noteq> CHR ''/'') (rev pre)"
    using assms(2) by (intro takeWhile_append2) auto
  ultimately show ?thesis
    unfolding baseName_def by simp
qed

lemma baseName_pathJoin:
  assumes "plainName name" and "CHR ''/'' \<notin> set ext"
  shows "baseName (pathJoin (dirs @ [name]) @ ext) = name @ ext"
proof -
  from assms have "CHR ''/'' \<notin> set (name @ ext)" by (simp add: plainName_def)
  from baseName_file[OF dirPrefix_end this] show ?thesis
    by (simp add: pathJoin_file[OF assms(1)])
qed

lemma baseName_getCategoryPath: "baseName (getCategoryPath base c) = categoryName c @ ''.jsonl''"
proof -
  have "plainName (categoryName c @ ''.jsonl'')"
    by (cases c) (simp_all add: plainName_def categoryName_def)
  from baseName_pathJoin[OF this, of "[]" "[base]"] show ?thesis
    by (simp add: getCategoryPath_def)
qed

lemma baseName_getFilePath: "baseName (getFilePath base f) = fileName f"
proof -
  have "plainName (fileName f)"
    by (cases f) (simp_all add: plainName_def fileName_def)
  from baseName_pathJoin[OF this, of "[]" "[base]"] show ?thesis
    by (simp add: getFilePath_def)
qed

lemma baseName_diffHistoryPath: "baseName (diffHistoryPath base) = ''diff_history.jsonl''"
proof -
  have "plainName ''diff_history.jsonl''" by (simp add: plainName_def)
  from baseName_pathJoin[OF this, of "[]" "[base]"] show ?thesis
    by (simp add: diffHistoryPath_def)
qed

lemma baseName_buildPath:
  assumes "plainName name" and "CHR ''/'' \<notin> set ext"
  shows "baseName (buildPath base ns name @ ext) = name @ ext"
  using baseName_pathJoin[OF assms, of "[base, ns]"] by (simp add: buildPath_def)

lemma putJson_other:
  assumes p: "plainName name"
    and q: "baseName q \<noteq> name" "baseName q \<noteq> name @ ''.meta.json''"
  shows "snd (putJson pf base ns name content js tg so fs) q = fs q"
proof -
  from baseName_buildPath[OF p, of "[]" base ns] q(1) have "q \<noteq> buildPath base ns name" by auto
  moreover from baseName_buildPath[OF p, of "''.meta.json''" base ns] q(2)
  have "q \<noteq> buildPath base ns name @ ''.meta.json''" by auto
  ultimately show ?thesis by (simp add: putJson_def writeFile_def Let_def)
qed

lemma putJson_content:
  "snd (putJson pf base ns name content js tg so fs) (buildPath base ns name) = Some content"
  by (simp add: putJson_def writeFile_def Let_def)

lemma createItems_Inr:
  assumes "refs \<noteq> []" "0 \<le> c" "c \<le> 1"
  shows "\<exists>items. createItems uuid n ts refs c = Inr items \<and> list_all MemoryItemSchema items
                 \<and> map mtext items = ts"
proof (induction ts arbitrary: n)
  case Nil
  then show ?case by simp
next
  case (Cons t ts)
  from Cons.IH[of "Suc n"] obtain items where
    "createItems uuid (Suc n) ts refs c = Inr items" "list_all MemoryItemSchema items"
    "map mtext items = ts" by blast
  moreover have "createItem (uuid n) t refs c
                   = Inr \<lparr>mid = uuid n, mtext = t, evidenceRefs = refs, confidence = c\<rparr>"
    "MemoryItemSchema \<lparr>mid = uuid n, mtext = t, evidenceRefs = refs, confidence = c\<rparr>"
    using assms by (simp_all add: createItem_def MemoryItemSchema_def)
  ultimately show ?case by simp
qed

lemma addBullets_Inr:
  assumes "refs \<noteq> []" "0 \<le> c" "c \<le> 1"
  shows "\<exists>ops'. addBullets uuid n file ts why refs c = Inr ops' \<and> list_all PlaybookOpSchema ops'
                \<and> map opAfter ops' = map Some ts \<and> list_all (\<lambda>op'. targetFile op' = file) ops'"
proof (induction ts arbitrary: n)
  case Nil
  then show ?case by simp
next
  case (Cons t ts)
  from Cons.IH[of "Suc n"] obtain ops' where
    "addBullets uuid (Suc n) file ts why refs c = Inr ops'" "list_all PlaybookOpSchema ops'"
    "map opAfter ops' = map Some ts" "list_all (\<lambda>op'. targetFile op' = file) ops'" by blast
  moreover have "addBullet (take 8 (uuid n)) file t why refs c
                   = Inr \<lparr>opKind = ADD_BULLET, targetFile = file, bulletId = Some (take 8 (uuid n)),
                          opBefore = None, opAfter = Some t, reason = why, opEvidenceRefs = refs,
                          opConfidence = c\<rparr>"
    "PlaybookOpSchema \<lparr>opKind = ADD_BULLET, targetFile = file, bulletId = Some (take 8 (uuid n)),
                          opBefore = None, opAfter = Some t, reason = why, opEvidenceRefs = refs,
                          opConfidence = c\<rparr>"
    using assms by (simp_all add: addBullet_def PlaybookOpSchema_def)
  ultimately show ?case by simp
qed

lemma generateMemoryDelta_Inr:
  assumes "isoDatetime (toISOString pf k)"
  shows "\<exists>d. generateMemoryDelta pf n k run node reflection = Inr d \<and> MemoryDeltaSchema d
             \<and> map mtext (addsFacts (adds d)) = whatWorked reflection
             \<and> map mtext (addsPitfalls (adds d)) = whatFailed reflection
             \<and> map mtext (addsTactics (adds d)) = nextTime reflection"
proof -
  let ?ev = "[artifactNamespace node @ ''/reflection.json'']"
  obtain facts where f: "createItems (uuidv4 pf) n (whatWorked reflection) ?ev (8 / 10) = Inr facts"
    "list_all MemoryItemSchema facts" "map mtext facts = whatWorked reflection"
    using createItems_Inr[of ?ev "8 / 10" "uuidv4 pf" n "whatWorked reflection"] by auto
  obtain pitfalls where p: "createItems (uuidv4 pf) (n + length (whatWorked reflection))
       (whatFailed reflection) ?ev (9 / 10) = Inr pitfalls"
    "list_all MemoryItemSchema pitfalls" "map mtext pitfalls = whatFailed reflection"
    using createItems_Inr[of ?ev "9 / 10" "uuidv4 pf" "n + length (whatWorked reflection)"
            "whatFailed reflection"] by auto
  obtain tactics where t: "createItems (uuidv4 pf)
       (n + length (whatWorked reflection) + length (whatFailed reflection))
       (nextTime reflection) ?ev (7 / 10) = Inr tactics"
    "list_all MemoryItemSchema tactics" "map mtext tactics = nextTime reflection"
    using createItems_Inr[of ?ev "7 / 10" "uuidv4 pf"
            "n + length (whatWorked reflection) + length (whatFailed reflection)"
            "nextTime reflection"] by auto
  show ?thesis
    unfolding generateMemoryDelta_def Let_def f(1) p(1) t(1)
    using assms f(2,3) p(2,3) t(2,3)
    by (simp add: createDelta_def MemoryDeltaSchema_def allCategories_def addsOf_def)
qed

lemma generatePlaybookDiff_Inr:
  assumes "isoDatetime (toISOString pf k)"
  shows "\<exists>d. generatePlaybookDiff pf n k run node reflection = Inr d \<and> PlaybookDiffSchema d"
proof -
  let ?ev = "[artifactNamespace node @ ''/reflection.json'']"
  obtain tops where t: "addBullets (uuidv4 pf) n PlaybookMd (take 3 (nextTime reflection))
       (''Learned from '' @ nid node) ?ev (7 / 10) = Inr tops" "list_all PlaybookOpSchema tops"
    using addBullets_Inr[of ?ev "7 / 10" "uuidv4 pf" n PlaybookMd "take 3 (nextTime reflection)"
            "''Learned from '' @ nid node"] by auto
  obtain fops where f: "addBullets (uuidv4 pf) (n + length (take 3 (nextTime reflection))) PitfallsMd
       (take 3 (whatFailed reflection)) (''Failure in '' @ nid node) ?ev (9 / 10) = Inr fops"
    "list_all PlaybookOpSchema fops"
    using addBullets_Inr[of ?ev "9 / 10" "uuidv4 pf" "n + length (take 3 (nextTime reflection))"
            PitfallsMd "take 3 (whatFailed reflection)" "''Failure in '' @ nid node"] by auto
  let ?text = "''Completed '' @ nodeTypeName (ntype node) @ '' node: '' @ take 50 (objective node)"
  obtain bops where b: "addBullets (uuidv4 pf) n PlaybookMd [?text]
       (''Node '' @ nid node @ '' completed'') ?ev (5 / 10) = Inr bops"
    "list_all PlaybookOpSchema bops" "map opAfter bops = map Some [?text]"
    using addBullets_Inr[of ?ev "5 / 10" "uuidv4 pf" n PlaybookMd "[?text]"
            "''Node '' @ nid node @ '' completed''"] by auto
  from b(3) have bne: "bops \<noteq> []" by auto
  show ?thesis
  proof (cases "tops = [] \<and> fops = []")
    case True
    then have e: "tops = []" "fops = []" by simp_all
    show ?thesis
      unfolding generatePlaybookDiff_def Let_def t(1) f(1) e
      using assms b bne by (simp add: createDiff_def PlaybookDiffSchema_def)
  next
    case False
    then have ne: "tops @ fops \<noteq> []" by simp
    have "generatePlaybookDiff pf n k run node reflection
            = createDiff (toISOString pf k) (specRunId run) (nid node) (tops @ fops @ [])"
      using ne unfolding generatePlaybookDiff_def Let_def t(1) f(1)
      by (simp del: append_is_Nil_conv)
    with assms t(2) f(2) ne show ?thesis
      by (simp add: createDiff_def PlaybookDiffSchema_def)
  qed
qed

text \<open>
  C6. Whatever the run, the node, the reflection, the base paths of the three stores and
  the contents of the file system, \<open>curate\<close> leaves the map the \<open>MemoryStore\<close> holds in
  memory, the five category files, the three playbook files and the diff history as they
  were: the only paths it writes end in \<open>memory_delta.json\<close>, \<open>playbook_diff.json\<close> or one of
  these followed by \<open>.meta.json\<close>. When the two clock readings it stamps are ISO datetimes,
  as those of \<open>toISOString\<close> are, it returns a delta and a diff that pass the schemas that
  \<open>applyMemoryDelta\<close> and \<open>applyDiff\<close> check, built from the reflection, and afterwards the
  two artifacts are in the file system under the node's artifact namespace. The stores
  change only when one of these two is then applied. Paths are POSIX paths and a file is
  identified by its path: links are not modelled.
\<close>

theorem curate_leaves_stores_unchanged:
  assumes "curate pf cur run node reflection m = (r, m')"
  shows "memoryMap m' = memoryMap m
     \<and> (\<forall>c. fileSystem m' (getCategoryPath (memoryBasePath cur) c)
              = fileSystem m (getCategoryPath (memoryBasePath cur) c))
     \<and> (\<forall>f. fileSystem m' (getFilePath (playbookBasePath cur) f)
              = fileSystem m (getFilePath (playbookBasePath cur) f))
     \<and> fileSystem m' (diffHistoryPath (playbookBasePath cur))
          = fileSystem m (diffHistoryPath (playbookBasePath cur))
     \<and> (\<forall>q. baseName q \<notin> {''memory_delta.json'', ''memory_delta.json.meta.json'',
                             ''playbook_diff.json'', ''playbook_diff.json.meta.json''}
              \<longrightarrow> fileSystem m' q = fileSystem m q)
     \<and> (isoDatetime (toISOString pf (clockCount m))
          \<and> isoDatetime (toISOString pf (Suc (clockCount m)))
        \<longrightarrow> (\<exists>d p. r = Inr (d, p) \<and> MemoryDeltaSchema d \<and> PlaybookDiffSchema p
                \<and> (\<forall>s. \<exists>s'. applyMemoryDelta d s = Inr s')
                \<and> (\<forall>uuid s. fst (applyDiff uuid p s) \<noteq> Some ZodError)
                \<and> map mtext (addsFacts (adds d)) = whatWorked reflection
                \<and> map mtext (addsPitfalls (adds d)) = whatFailed reflection
                \<and> map mtext (addsTactics (adds d)) = nextTime reflection
                \<and> fileSystem m' (buildPath (artifactBasePath cur) (artifactNamespace node)
                                     ''memory_delta.json'') = Some (stringifyDelta pf d)
                \<and> fileSystem m' (buildPath (artifactBasePath cur) (artifactNamespace node)
                                     ''playbook_diff.json'') = Some (stringifyDiff pf p)))"
proof -
  let ?names = "{''memory_delta.json'', ''memory_delta.json.meta.json'',
                 ''playbook_diff.json'', ''playbook_diff.json.meta.json''}"
  have pn: "plainName ''memory_delta.json''" "plainName ''playbook_diff.json''"
    by (simp_all add: plainName_def)
  have written: "snd (putJson pf b ns ''playbook_diff.json'' c2 j2 t2 s2
                   (snd (putJson pf b ns ''memory_delta.json'' c1 j1 t1 s1 fs))) q = fs q"
    if "baseName q \<notin> ?names" for b ns c1 j1 t1 s1 c2 j2 t2 s2 fs q
    using that by (simp add: putJson_other[OF pn(1)] putJson_other[OF pn(2)])
  have frame: "fileSystem m' q = fileSystem m q" if "baseName q \<notin> ?names" for q
    using assms written[OF that]
    by (auto simp: curate_def split: sum.splits)
  have mem: "memoryMap m' = memoryMap m"
    using assms by (auto simp: curate_def split: sum.splits)
  have cat: "fileSystem m' (getCategoryPath (memoryBasePath cur) c)
              = fileSystem m (getCategoryPath (memoryBasePath cur) c)" for c
    by (rule frame) (cases c, simp_all add: baseName_getCategoryPath categoryName_def)
  have pb: "fileSystem m' (getFilePath (playbookBasePath cur) f)
              = fileSystem m (getFilePath (playbookBasePath cur) f)" for f
    by (rule frame) (cases f, simp_all add: baseName_getFilePath fileName_def)
  have hist: "fileSystem m' (diffHistoryPath (playbookBasePath cur))
          = fileSystem m (diffHistoryPath (playbookBasePath cur))"
    by (rule frame) (simp add: baseName_diffHistoryPath)
  have made: "\<exists>d p. r = Inr (d, p) \<and> MemoryDeltaSchema d \<and> PlaybookDiffSchema p
                \<and> (\<forall>s. \<exists>s'. applyMemoryDelta d s = Inr s')
                \<and> (\<forall>uuid s. fst (applyDiff uuid p s) \<noteq> Some ZodError)
                \<and> map mtext (addsFacts (adds d)) = whatWorked reflection
                \<and> map mtext (addsPitfalls (adds d)) = whatFailed reflection
                \<and> map mtext (addsTactics (adds d)) = nextTime reflection
                \<and> fileSystem m' (buildPath (artifactBasePath cur) (artifactNamespace node)
                                     ''memory_delta.json'') = Some (stringifyDelta pf d)
                \<and> fileSystem m' (buildPath (artifactBasePath cur) (artifactNamespace node)
                                     ''playbook_diff.json'') = Some (stringifyDiff pf p)"
    if iso: "isoDatetime (toISOString pf (clockCount m))
          \<and> isoDatetime (toISOString pf (Suc (clockCount m)))"
  proof -
    from generateMemoryDelta_Inr[of pf "clockCount m" "uuidCount m" run node reflection] iso
    obtain d where d: "generateMemoryDelta pf (uuidCount m) (clockCount m) run node reflection = Inr d"
      "MemoryDeltaSchema d" "map mtext (addsFacts (adds d)) = whatWorked reflection"
      "map mtext (addsPitfalls (adds d)) = whatFailed reflection"
      "map mtext (addsTactics (adds d)) = nextTime reflection" by blast
    from generatePlaybookDiff_Inr[of pf "Suc (clockCount m)"
           "uuidCount m + uuidsForDelta reflection" run node reflection] iso
    obtain p where p: "generatePlaybookDiff pf (uuidCount m + uuidsForDelta reflection)
           (Suc (clockCount m)) run node reflection = Inr p" "PlaybookDiffSchema p" by blast
    let ?b = "artifactBasePath cur" and ?ns = "artifactNamespace node"
    let ?fs1 = "snd (putJson pf ?b ?ns ''memory_delta.json'' (stringifyDelta pf d)
                       ''Object with keys: runId, nodeId, adds, createdAt''
                       [''memory'', ''delta''] (Some (''Memory delta from '' @ nid node))
                       (fileSystem m))"
    let ?fs2 = "snd (putJson pf ?b ?ns ''playbook_diff.json'' (stringifyDiff pf p)
                       ''Object with keys: runId, nodeId, ops, createdAt''
                       [''playbook'', ''diff''] (Some (''Playbook diff from '' @ nid node)) ?fs1)"
    from assms have r: "r = Inr (d, p)" and m': "fileSystem m' = ?fs2"
      unfolding curate_def d(1) p(1) by auto
    have "baseName (buildPath ?b ?ns ''memory_delta.json'') = ''memory_delta.json''"
      using baseName_buildPath[OF pn(1), of "[]" ?b ?ns] by simp
    then have "?fs2 (buildPath ?b ?ns ''memory_delta.json'')
                 = ?fs1 (buildPath ?b ?ns ''memory_delta.json'')"
      by (intro putJson_other[OF pn(2)]) simp_all
    then have one: "fileSystem m' (buildPath ?b ?ns ''memory_delta.json'') = Some (stringifyDelta pf d)"
      unfolding m' by (simp only: putJson_content)
    have two: "fileSystem m' (buildPath ?b ?ns ''playbook_diff.json'') = Some (stringifyDiff pf p)"
      unfolding m' by (rule putJson_content)
    have ad: "\<forall>s. \<exists>s'. applyMemoryDelta d s = Inr s'"
      using d(2) by (simp add: applyMemoryDelta_def)
    have ap: "\<forall>uuid s. fst (applyDiff uuid p s) \<noteq> Some ZodError"
    proof (intro allI)
      fix uuid s
      have "fst (applyOps uuid os s0) \<noteq> Some ZodError" for os s0
        by (induction os arbitrary: s0) (auto simp: applyOp_def split: option.splits prod.splits sum.splits)
      from this[of "ops p" s] show "fst (applyDiff uuid p s) \<noteq> Some ZodError"
        using p(2) by (cases "applyOps uuid (ops p) s") (auto simp: applyDiff_def split: option.splits)
    qed
    from r d(2-5) p(2) one two ad ap show ?thesis by blast
  qed
  from mem cat pb hist frame made show ?thesis by blast
qed

theorem curate_leaves_stores_unchanged_witness:
  "fileSystem (snd (curate examplePlatform exampleCurator
                      \<lparr>specRunId = ''run-0001'', specObjective = ''ship''\<rparr> (mkNode ''top'' [])
                      exampleReflection exampleMachine)) ''data/memory/facts.jsonl'' = Some ''{}''
   \<and> fileSystem (snd (curate examplePlatform exampleCurator
                      \<lparr>specRunId = ''run-0001'', specObjective = ''ship''\<rparr> (mkNode ''top'' [])
                      exampleReflection exampleMachine)) ''data/playbook/playbook.md''
       = Some tacticsPlaybook
   \<and> memoryMap (snd (curate examplePlatform exampleCurator
                      \<lparr>specRunId = ''run-0001'', specObjective = ''ship''\<rparr> (mkNode ''top'' [])
                      exampleReflection exampleMachine)) Facts = [exampleItemA]
   \<and> fileSystem (snd (curate examplePlatform exampleCurator
                      \<lparr>specRunId = ''run-0001'', specObjective = ''ship''\<rparr> (mkNode ''top'' [])
                      exampleReflection exampleMachine))
         ''data/artifacts/runs/run-0001/nodes/top/memory_delta.json'' = Some ''delta of top''
   \<and> fileSystem (snd (curate examplePlatform exampleCurator
                      \<lparr>specRunId = ''run-0001'', specObjective = ''ship''\<rparr> (mkNode ''top'' [])
                      exampleReflection exampleMachine))
         ''data/artifacts/runs/run-0001/nodes/top/playbook_diff.json'' = Some ''diff of top''
   \<and> fileSystem exampleMachine ''data/artifacts/runs/run-0001/nodes/top/memory_delta.json'' = None"
proof -
  define r where "r = fst (curate examplePlatform exampleCurator
                      \<lparr>specRunId = ''run-0001'', specObjective = ''ship''\<rparr> (mkNode ''top'' [])
                      exampleReflection exampleMachine)"
  define m' where "m' = snd (curate examplePlatform exampleCurator
                      \<lparr>specRunId = ''run-0001'', specObjective = ''ship''\<rparr> (mkNode ''top'' [])
                      exampleReflection exampleMachine)"
  have c: "curate examplePlatform exampleCurator
             \<lparr>specRunId = ''run-0001'', specObjective = ''ship''\<rparr> (mkNode ''top'' [])
             exampleReflection exampleMachine = (r, m')"
    by (simp add: r_def m'_def)
  note t = curate_leaves_stores_unchanged[OF c]
  have paths: "getCategoryPath (memoryBasePath exampleCurator) Facts = ''data/memory/facts.jsonl''"
    "getFilePath (playbookBasePath exampleCurator) PlaybookMd = ''data/playbook/playbook.md''"
    "buildPath (artifactBasePath exampleCurator) (artifactNamespace (mkNode ''top'' []))
        ''memory_delta.json'' = ''data/artifacts/runs/run-0001/nodes/top/memory_delta.json''"
    "buildPath (artifactBasePath exampleCurator) (artifactNamespace (mkNode ''top'' []))
        ''playbook_diff.json'' = ''data/artifacts/runs/run-0001/nodes/top/playbook_diff.json''"
    by code_simp+
  have before: "fileSystem exampleMachine ''data/memory/facts.jsonl'' = Some ''{}''"
    "fileSystem exampleMachine ''data/playbook/playbook.md'' = Some tacticsPlaybook"
    "memoryMap exampleMachine Facts = [exampleItemA]"
    "fileSystem exampleMachine ''data/artifacts/runs/run-0001/nodes/top/memory_delta.json'' = None"
    by (simp_all add: exampleMachine_def)
  have iso: "isoDatetime (toISOString examplePlatform (clockCount exampleMachine))
          \<and> isoDatetime (toISOString examplePlatform (Suc (clockCount exampleMachine)))"
    by (simp add: examplePlatform_def) code_simp
  from t iso obtain d p where dp: "r = Inr (d, p)"
    "fileSystem m' (buildPath (artifactBasePath exampleCurator) (artifactNamespace (mkNode ''top'' []))
                      ''memory_delta.json'') = Some (stringifyDelta examplePlatform d)"
    "fileSystem m' (buildPath (artifactBasePath exampleCurator) (artifactNamespace (mkNode ''top'' []))
                      ''playbook_diff.json'') = Some (stringifyDiff examplePlatform p)"
    by blast
  have "fst (curate examplePlatform exampleCurator
             \<lparr>specRunId = ''run-0001'', specObjective = ''ship''\<rparr> (mkNode ''top'' [])
             exampleReflection exampleMachine) = Inr (d, p)"
    using dp(1) by (simp add: r_def)
  then have ids: "deltaNodeId d = ''top''" "diffNodeId p = ''top''"
    by (auto simp: curate_def generateMemoryDelta_def generatePlaybookDiff_def createDelta_def
          createDiff_def Let_def mkNode_def split: sum.splits if_splits)
  have s: "stringifyDelta examplePlatform d = ''delta of top''"
    "stringifyDiff examplePlatform p = ''diff of top''"
    using ids by (simp_all add: examplePlatform_def)
  from t have "fileSystem m' (getCategoryPath (memoryBasePath exampleCurator) Facts)
                 = fileSystem exampleMachine (getCategoryPath (memoryBasePath exampleCurator) Facts)"
    "fileSystem m' (getFilePath (playbookBasePath exampleCurator) PlaybookMd)
                 = fileSystem exampleMachine (getFilePath (playbookBasePath exampleCurator) PlaybookMd)"
    "memoryMap m' = memoryMap exampleMachine"
    by blast+
  with dp(2,3) show ?thesis
    unfolding m'_def[symmetric] paths s before by (simp add: before)
qed

end
